theory Spec2Isabelle
  imports Main "HOL-Library.AList" "HOL-Library.Sublist"
begin

section \<open>Python values\<close>

text \<open>
  The script \<^verbatim>\<open>Script/visualize_azure_graph.py\<close> works on Python strings, dictionaries,
  decoded JSON values, a pandas data frame and a networkx \<^verbatim>\<open>DiGraph\<close>.  A Python
  \<^verbatim>\<open>dict\<close> is an association list with distinct keys in insertion order: storing under
  a key that is present replaces the value in place, storing under a new key appends
  (\<^const>\<open>AList.update\<close>); reading is \<^const>\<open>map_of\<close>.
\<close>

type_synonym ('k, 'v) dict = "('k \<times> 'v) list"

text \<open>\<^verbatim>\<open>d.update(other)\<close>: store every item of \<^verbatim>\<open>other\<close>, in order.\<close>

definition dict_update :: "('k, 'v) dict \<Rightarrow> ('k, 'v) dict \<Rightarrow> ('k, 'v) dict" where
  "dict_update d other = fold (\<lambda>(k, v) acc. AList.update k v acc) other d"

text \<open>
  \<^verbatim>\<open>str.lower()\<close>.  A \<^typ>\<open>char\<close> stands for a code point below 256; there Python maps
  \<^verbatim>\<open>A\<close>..\<^verbatim>\<open>Z\<close> and the Latin-1 capitals (192..222 except 215) to the code point 32 above
  and leaves every other character alone.
\<close>

definition lower_char :: "char \<Rightarrow> char" where
  "lower_char c =
     (let n = (of_char c :: nat)
      in if (65 \<le> n \<and> n \<le> 90) \<or> (192 \<le> n \<and> n \<le> 222 \<and> n \<noteq> 215)
         then char_of (n + 32) else c)"

definition lower :: "string \<Rightarrow> string" where
  "lower s = map lower_char s"

text \<open>\<^verbatim>\<open>sep.join(parts)\<close>.\<close>

fun join :: "string \<Rightarrow> string list \<Rightarrow> string" where
  "join sep [] = []"
| "join sep [x] = x"
| "join sep (x # y # ys) = x @ sep @ join sep (y # ys)"

text \<open>\<^verbatim>\<open>needle in hay\<close> on strings: \<^verbatim>\<open>needle\<close> occurs as a contiguous substring.\<close>

fun str_in :: "string \<Rightarrow> string \<Rightarrow> bool" where
  "str_in needle [] = (needle = [])"
| "str_in needle (c # cs) = (prefix needle (c # cs) \<or> str_in needle cs)"

text \<open>
  The exceptions the build can meet.  \<^verbatim>\<open>SystemExit\<close> is raised by the column check;
  \<^verbatim>\<open>AttributeError\<close> and \<^verbatim>\<open>TypeError\<close> come from operations on decoded JSON values and
  from binding keyword arguments; \<^verbatim>\<open>json.loads\<close> raises \<^verbatim>\<open>JSONDecodeError\<close> on a text that is
  not JSON, and also \<^verbatim>\<open>RecursionError\<close> (a text nested deeper than the interpreter's
  recursion limit) and a plain \<^verbatim>\<open>ValueError\<close> (an integer literal beyond the digit limit),
  neither of which is a \<^verbatim>\<open>JSONDecodeError\<close>.
\<close>

datatype error =
    SystemExit string
  | AttributeError
  | TypeError
  | JSONDecodeError
  | RecursionError
  | ValueError

text \<open>
  What \<^verbatim>\<open>json.loads\<close> returns: \<^verbatim>\<open>None\<close>, \<^verbatim>\<open>bool\<close>, \<^verbatim>\<open>int\<close>, \<^verbatim>\<open>float\<close> (kept as its
  literal: the script never computes with one), \<^verbatim>\<open>str\<close>, \<^verbatim>\<open>list\<close> and \<^verbatim>\<open>dict\<close>.
\<close>

datatype json =
    JNull
  | JBool bool
  | JInt int
  | JFloat string
  | JStr string
  | JList "json list"
  | JDict "(string, json) dict"

text \<open>\<^verbatim>\<open>x.get(key, default)\<close>: only a \<^verbatim>\<open>dict\<close> has the method.\<close>

fun py_get :: "json \<Rightarrow> string \<Rightarrow> json \<Rightarrow> error + json" where
  "py_get (JDict d) key dflt = Inr (case map_of d key of Some v \<Rightarrow> v | None \<Rightarrow> dflt)"
| "py_get _ key dflt = Inl AttributeError"

text \<open>\<^verbatim>\<open>x.lower()\<close>: only a \<^verbatim>\<open>str\<close> has the method.\<close>

fun py_lower :: "json \<Rightarrow> error + string" where
  "py_lower (JStr s) = Inr (lower s)"
| "py_lower _ = Inl AttributeError"

text \<open>
  \<^verbatim>\<open>for rule in x\<close>: a list yields its elements, a string its characters (strings of
  length one), a dict its keys; anything else is not iterable.
\<close>

fun py_iter :: "json \<Rightarrow> error + json list" where
  "py_iter (JList xs) = Inr xs"
| "py_iter (JStr s) = Inr (map (\<lambda>c. JStr [c]) s)"
| "py_iter (JDict d) = Inr (map (\<lambda>kv. JStr (fst kv)) d)"
| "py_iter _ = Inl TypeError"

section \<open>The data frame\<close>

text \<open>
  \<^verbatim>\<open>pd.read_csv(csv_path, dtype=str).fillna("")\<close> is a table of strings: the header
  (\<open>columns\<close>, which pandas keeps distinct) and the rows in input order.  A row gives
  the cell of every column of the header, so it is a function read at the header's
  columns only; a missing cell is the empty string.
\<close>

type_synonym row = "string \<Rightarrow> string"

record dataframe =
  columns :: "string list"
  rows :: "row list"

text \<open>\<^verbatim>\<open>row.get(key, default)\<close>: the default is for a column the header does not have.\<close>

definition row_get :: "string list \<Rightarrow> row \<Rightarrow> string \<Rightarrow> string \<Rightarrow> string" where
  "row_get cols r key dflt = (if key \<in> set cols then r key else dflt)"

section \<open>The directed graph\<close>

text \<open>
  A networkx \<^verbatim>\<open>DiGraph\<close>: a dict from node to attribute dict, and the directed edges, one
  per ordered pair (kept here in order of first insertion).  An attribute value is a
  string or, for the size hint of the Internet node, an integer.
\<close>

datatype attrval = AStr string | AInt int

type_synonym attrs = "(string, attrval) dict"

record graph =
  nodes :: "(string, attrs) dict"
  edges :: "(string \<times> string) list"

definition empty_graph :: graph where
  "empty_graph = \<lparr>nodes = [], edges = []\<rparr>"

text \<open>
  \<^verbatim>\<open>G.add_node(n, **attr)\<close>: a new node gets the attributes; for a node already present
  the attributes are merged into the ones it has.
\<close>

definition add_node :: "graph \<Rightarrow> string \<Rightarrow> attrs \<Rightarrow> graph" where
  "add_node G n attr =
     (case map_of (nodes G) n of
        None \<Rightarrow> G\<lparr>nodes := nodes G @ [(n, dict_update [] attr)]\<rparr>
      | Some old \<Rightarrow> G\<lparr>nodes := AList.update n (dict_update old attr) (nodes G)\<rparr>)"

text \<open>
  \<^verbatim>\<open>G.add_edge(u, v)\<close>: both end points become nodes (with no attributes) if they are
  not yet, then the edge is stored; an edge already present stays single.
\<close>

definition touch_node :: "graph \<Rightarrow> string \<Rightarrow> graph" where
  "touch_node G n = (if n \<in> fst ` set (nodes G) then G else G\<lparr>nodes := nodes G @ [(n, [])]\<rparr>)"

definition add_edge :: "graph \<Rightarrow> string \<Rightarrow> string \<Rightarrow> graph" where
  "add_edge G u v =
     (let G' = touch_node (touch_node G u) v
      in if (u, v) \<in> set (edges G') then G' else G'\<lparr>edges := edges G' @ [(u, v)]\<rparr>)"

text \<open>
  The call \<^verbatim>\<open>G.add_node(name, **attrs)\<close> passes the columns as keyword arguments: a
  column called like a parameter of \<^verbatim>\<open>add_node(self, node_for_adding, **attr)\<close> cannot be
  bound (\<^verbatim>\<open>TypeError: got multiple values for argument\<close>).
\<close>

definition call_add_node :: "graph \<Rightarrow> string \<Rightarrow> attrs \<Rightarrow> error + graph" where
  "call_add_node G n kwargs =
     (if ''self'' \<in> fst ` set kwargs \<or> ''node_for_adding'' \<in> fst ` set kwargs
      then Inl TypeError else Inr (add_node G n kwargs))"

section \<open>\<^verbatim>\<open>build_graph_from_csv\<close>\<close>

text \<open>A \<^verbatim>\<open>for\<close> loop whose body may raise: the first exception ends the loop.\<close>

fun for_each :: "('a \<Rightarrow> 's \<Rightarrow> error + 's) \<Rightarrow> 'a list \<Rightarrow> 's \<Rightarrow> error + 's" where
  "for_each body [] s = Inr s"
| "for_each body (x # xs) s =
     (case body x s of Inl e \<Rightarrow> Inl e | Inr s' \<Rightarrow> for_each body xs s')"

subsection \<open>Identity index (lines 44-45)\<close>

definition id_to_name :: "row list \<Rightarrow> (string, string) dict" where
  "id_to_name rs =
     fold (\<lambda>r d. if r ''id'' \<noteq> '''' then AList.update (r ''id'') (r ''name'') d else d) rs []"

definition id_to_row :: "row list \<Rightarrow> (string, row) dict" where
  "id_to_row rs =
     fold (\<lambda>r d. if r ''id'' \<noteq> '''' then AList.update (r ''id'') r d else d) rs []"

subsection \<open>Nodes (lines 51-64)\<close>

definition row_attrs :: "string list \<Rightarrow> row \<Rightarrow> attrs" where
  "row_attrs cols r =
     fold (\<lambda>key a. if r key \<noteq> '''' then AList.update key (AStr (r key)) a else a) cols []"

definition node_step :: "string list \<Rightarrow> row \<Rightarrow> graph \<Rightarrow> error + graph" where
  "node_step cols r G =
     (let name = r ''name''
      in if name = '''' then Inr G else call_add_node G name (row_attrs cols r))"

subsection \<open>Reference edges (lines 68-91)\<close>

text \<open>
  The fallback of line 74 keeps the columns of dtype \<^verbatim>\<open>object\<close>, which is every column of
  a frame read with \<^verbatim>\<open>dtype=str\<close>.  The haystack of a row is the cells of the search
  columns, in header order, joined by single spaces.
\<close>

definition search_columns :: "string list \<Rightarrow> string list" where
  "search_columns cols =
     (let sc = filter (\<lambda>c. c \<in> set [''properties'', ''tags'', ''identity'', ''managedBy'',
                                      ''resourceGroup'', ''type'']) cols
      in if sc = [] then cols else sc)"

definition haystack :: "string list \<Rightarrow> row \<Rightarrow> string" where
  "haystack sc r = join '' '' (map r sc)"

definition ref_step :: "(string, string) dict \<Rightarrow> row \<Rightarrow> string \<Rightarrow> string \<Rightarrow> graph \<Rightarrow> graph" where
  "ref_step idx r hay cid G =
     (if cid = r ''id'' then G
      else if str_in cid hay then
        (case map_of idx cid of
           None \<Rightarrow> G
         | Some tgt_name \<Rightarrow>
             if tgt_name \<noteq> '''' then add_edge (add_node G tgt_name []) (r ''name'') tgt_name
             else G)
      else G)"

definition ref_row :: "(string, string) dict \<Rightarrow> string list \<Rightarrow> string list \<Rightarrow> row \<Rightarrow> graph \<Rightarrow> graph" where
  "ref_row idx candidate_ids sc r G =
     (if r ''name'' = '''' then G
      else fold (ref_step idx r (haystack sc r)) candidate_ids G)"

subsection \<open>Exposure (lines 93-130)\<close>

definition internet_node_name :: string where
  "internet_node_name = ''Internet''"

definition internet_sources :: "string set" where
  "internet_sources = {''*'', ''internet'', ''0.0.0.0/0''}"

definition internet_attrs :: attrs where
  "internet_attrs = [(''type'', AStr ''Internet''), (''group'', AStr ''Internet''), (''size'', AInt 40)]"

text \<open>The condition of lines 110-113 on one entry of \<^verbatim>\<open>securityRules\<close>; \<^verbatim>\<open>and\<close> stops at the first false operand.\<close>

definition rule_open :: "json \<Rightarrow> error + bool" where
  "rule_open rule =
     (case py_get rule ''properties'' (JDict []) of Inl e \<Rightarrow> Inl e | Inr rule_props \<Rightarrow>
     (case py_get rule_props ''direction'' (JStr '''') of Inl e \<Rightarrow> Inl e | Inr d \<Rightarrow>
     (case py_lower d of Inl e \<Rightarrow> Inl e | Inr dl \<Rightarrow>
      if dl \<noteq> ''inbound'' then Inr False else
     (case py_get rule_props ''access'' (JStr '''') of Inl e \<Rightarrow> Inl e | Inr a \<Rightarrow>
     (case py_lower a of Inl e \<Rightarrow> Inl e | Inr al \<Rightarrow>
      if al \<noteq> ''allow'' then Inr False else
     (case py_get rule_props ''sourceAddressPrefix'' (JStr '''') of Inl e \<Rightarrow> Inl e | Inr s \<Rightarrow>
     (case py_lower s of Inl e \<Rightarrow> Inl e | Inr sl \<Rightarrow>
      Inr (sl \<in> internet_sources))))))))"

text \<open>The loop of lines 109-115, which stops at the first open rule.\<close>

fun scan_rules :: "json list \<Rightarrow> error + bool" where
  "scan_rules [] = Inr False"
| "scan_rules (rule # rest) =
     (case rule_open rule of
        Inl e \<Rightarrow> Inl e
      | Inr opened \<Rightarrow> if opened then Inr True else scan_rules rest)"

text \<open>The body of the \<^verbatim>\<open>try\<close> after \<^verbatim>\<open>json.loads\<close> (lines 107-121): the value of \<^verbatim>\<open>is_exposed\<close>.\<close>

definition is_exposed :: "string \<Rightarrow> json \<Rightarrow> error + bool" where
  "is_exposed node_type properties =
     (if node_type = ''microsoft.network/networksecuritygroups'' then
        (case py_get properties ''securityRules'' (JList []) of Inl e \<Rightarrow> Inl e | Inr rules \<Rightarrow>
        (case py_iter rules of Inl e \<Rightarrow> Inl e | Inr rs \<Rightarrow> scan_rules rs))
      else if node_type = ''microsoft.storage/storageaccounts'' then
        (case py_get properties ''networkAcls'' (JDict []) of Inl e \<Rightarrow> Inl e | Inr network_acls \<Rightarrow>
        (case py_get network_acls ''defaultAction'' (JStr '''') of Inl e \<Rightarrow> Inl e | Inr a \<Rightarrow>
        (case py_lower a of Inl e \<Rightarrow> Inl e | Inr al \<Rightarrow> Inr (al = ''allow''))))
      else Inr False)"

text \<open>Lines 126-130: the Internet node is added when the flag is unset, then the edge.\<close>

definition mark_exposed :: "graph \<times> bool \<Rightarrow> string \<Rightarrow> graph \<times> bool" where
  "mark_exposed st node_name =
     (let G = (if snd st then fst st else add_node (fst st) internet_node_name internet_attrs)
      in (add_edge G internet_node_name node_name, True))"

text \<open>
  One turn of the loop of line 98.  \<^verbatim>\<open>loads\<close> is \<^verbatim>\<open>json.loads\<close>, a function of the Python
  library that every property below takes as it comes: on a text it gives the decoded
  value, or the exception it raises.  \<open>try_body\<close> is the \<^verbatim>\<open>try\<close> block of lines 104-121,
  which ends with the value of \<^verbatim>\<open>is_exposed\<close> or with the first exception raised in it.
  The \<^verbatim>\<open>except\<close> clause of line 123 skips the row on \<^verbatim>\<open>JSONDecodeError\<close> and
  \<^verbatim>\<open>AttributeError\<close>; any other exception leaves the function.
\<close>

definition try_body :: "(string \<Rightarrow> error + json) \<Rightarrow> string list \<Rightarrow> row \<Rightarrow> error + bool" where
  "try_body loads cols r =
     (let node_type = lower (row_get cols r ''type'' '''');
          properties_str = row_get cols r ''properties'' ''{}''
      in case loads properties_str of
           Inl e \<Rightarrow> Inl e
         | Inr properties \<Rightarrow> is_exposed node_type properties)"

definition expose_step :: "(string \<Rightarrow> error + json) \<Rightarrow> string list \<Rightarrow> row \<Rightarrow> graph \<times> bool \<Rightarrow> error + graph \<times> bool" where
  "expose_step loads cols r st =
     (let node_name = r ''name''
      in case try_body loads cols r of
           Inl e \<Rightarrow> if e = JSONDecodeError \<or> e = AttributeError then Inr st else Inl e
         | Inr exposed \<Rightarrow> if exposed then Inr (mark_exposed st node_name) else Inr st)"

subsection \<open>The whole build\<close>

text \<open>
  Lines 44-91, which run once the column check has passed: the graph of nodes and
  reference edges.  The candidate ids are the keys of \<^verbatim>\<open>id_to_name\<close>, in order of first
  insertion.  (\<^verbatim>\<open>id_to_row\<close> is built by line 45 and not read again.)
\<close>

definition reference_graph :: "dataframe \<Rightarrow> error + graph" where
  "reference_graph df =
     (let cols = columns df; rs = rows df
      in case for_each (node_step cols) rs empty_graph of
           Inl e \<Rightarrow> Inl e
         | Inr G \<Rightarrow>
             (let idx = id_to_name rs;
                  candidate_ids = map fst idx
              in Inr (fold (ref_row idx candidate_ids (search_columns cols)) rs G)))"

text \<open>The column check of line 40, the reference graph, then the exposure loop.\<close>

definition build_graph_from_csv :: "(string \<Rightarrow> error + json) \<Rightarrow> dataframe \<Rightarrow> error + graph" where
  "build_graph_from_csv loads df =
     (if ''id'' \<notin> set (columns df) \<or> ''name'' \<notin> set (columns df)
      then Inl (SystemExit ''CSV must contain 'id' and 'name' columns'')
      else
        (case reference_graph df of
           Inl e \<Rightarrow> Inl e
         | Inr G \<Rightarrow>
             (case for_each (expose_step loads (columns df)) (rows df) (G, False) of
                Inl e \<Rightarrow> Inl e
              | Inr st \<Rightarrow> Inr (fst st))))"

section \<open>Vocabulary of the properties\<close>

text \<open>A row given by its non-empty cells.\<close>

definition mk_row :: "(string \<times> string) list \<Rightarrow> row" where
  "mk_row cells = (\<lambda>key. case map_of cells key of Some v \<Rightarrow> v | None \<Rightarrow> '''')"

text \<open>
  A decoder given by the texts it decodes; on every other text it raises
  \<^verbatim>\<open>JSONDecodeError\<close>.
\<close>

definition decoder_of :: "(string \<times> json) list \<Rightarrow> string \<Rightarrow> error + json" where
  "decoder_of table s = (case map_of table s of Some v \<Rightarrow> Inr v | None \<Rightarrow> Inl JSONDecodeError)"

text \<open>
  The row is exposed: its \<^verbatim>\<open>try\<close> block ends with \<^verbatim>\<open>is_exposed\<close> true, so lines 126-130
  run for it.
\<close>

definition row_exposed :: "(string \<Rightarrow> error + json) \<Rightarrow> string list \<Rightarrow> row \<Rightarrow> bool" where
  "row_exposed loads cols r = (try_body loads cols r = Inr True)"

text \<open>\<^verbatim>\<open>G.nodes[n].get(key)\<close>, \<open>None\<close> also when the graph has no node \<open>n\<close>.\<close>

definition attr_of :: "graph \<Rightarrow> string \<Rightarrow> string \<Rightarrow> attrval option" where
  "attr_of G n key = (case map_of (nodes G) n of None \<Rightarrow> None | Some a \<Rightarrow> map_of a key)"

text \<open>
  The cell under column \<open>key\<close> of the last row called \<open>name\<close> whose cell there is not
  empty: what merging the rows of that name, in input order, leaves under \<open>key\<close>.
\<close>

definition merged_attr :: "string list \<Rightarrow> row list \<Rightarrow> string \<Rightarrow> string \<Rightarrow> attrval option" where
  "merged_attr cols rs name key =
     (case filter (\<lambda>r. r ''name'' = name \<and> r key \<noteq> '''') rs of
        [] \<Rightarrow> None
      | x # xs \<Rightarrow> if key \<in> set cols then Some (AStr (last (x # xs) key)) else None)"

text \<open>
  Row \<open>r\<close> refers to the name \<open>tgt\<close>: the row has a name, and its haystack contains a
  candidate id, other than the row's own id, that the identity index resolves to the
  non-empty name \<open>tgt\<close>.
\<close>

definition refers :: "(string, string) dict \<Rightarrow> string list \<Rightarrow> string list \<Rightarrow> row \<Rightarrow> string \<Rightarrow> bool" where
  "refers idx candidate_ids sc r tgt =
     (r ''name'' \<noteq> '''' \<and> tgt \<noteq> ''''
      \<and> (\<exists>cid\<in>set candidate_ids. cid \<noteq> r ''id'' \<and> str_in cid (haystack sc r)
            \<and> map_of idx cid = Some tgt))"

text \<open>
  \<open>json_path v [k1, k2]\<close> is the member \<^verbatim>\<open>v.k1.k2\<close> of a decoded value, when every step is
  an object that has the member; \<open>lowered\<close> is the lowercase of a member that is a string.
\<close>

fun member :: "json \<Rightarrow> string \<Rightarrow> json option" where
  "member (JDict d) key = map_of d key"
| "member _ key = None"

fun json_path :: "json \<Rightarrow> string list \<Rightarrow> json option" where
  "json_path v [] = Some v"
| "json_path v (key # keys) = (case member v key of None \<Rightarrow> None | Some w \<Rightarrow> json_path w keys)"

fun lowered :: "json option \<Rightarrow> string option" where
  "lowered (Some (JStr s)) = Some (lower s)"
| "lowered _ = None"

text \<open>\<^verbatim>\<open>properties.networkAcls.defaultAction\<close> lowercased equals \<^verbatim>\<open>"allow"\<close>.\<close>

definition storage_open :: "json \<Rightarrow> bool" where
  "storage_open properties =
     (lowered (json_path properties [''networkAcls'', ''defaultAction'']) = Some ''allow'')"

text \<open>
  An entry of \<^verbatim>\<open>securityRules\<close> is open when the object under its \<^verbatim>\<open>properties\<close> member
  has \<^verbatim>\<open>direction\<close> \<^verbatim>\<open>"inbound"\<close>, \<^verbatim>\<open>access\<close> \<^verbatim>\<open>"allow"\<close> and a \<^verbatim>\<open>sourceAddressPrefix\<close> among
  the Internet sources, all three compared in lowercase.
\<close>

definition entry_open :: "json \<Rightarrow> bool" where
  "entry_open rule =
     (lowered (json_path rule [''properties'', ''direction'']) = Some ''inbound''
      \<and> lowered (json_path rule [''properties'', ''access'']) = Some ''allow''
      \<and> (case lowered (json_path rule [''properties'', ''sourceAddressPrefix'']) of
            None \<Rightarrow> False
          | Some s \<Rightarrow> s \<in> internet_sources))"

text \<open>
  The same test read on the entry itself, without the step through \<^verbatim>\<open>properties\<close>: an
  entry \<^verbatim>\<open>{direction: "Inbound", access: "Allow", sourceAddressPrefix: "*"}\<close> passes it.
\<close>

definition flat_entry_open :: "json \<Rightarrow> bool" where
  "flat_entry_open rule =
     (lowered (json_path rule [''direction'']) = Some ''inbound''
      \<and> lowered (json_path rule [''access'']) = Some ''allow''
      \<and> (case lowered (json_path rule [''sourceAddressPrefix'']) of
            None \<Rightarrow> False
          | Some s \<Rightarrow> s \<in> internet_sources))"

text \<open>
  A well-formed entry: an object whose \<^verbatim>\<open>properties\<close> member, when it has one, is an object
  whose \<^verbatim>\<open>direction\<close>, \<^verbatim>\<open>access\<close> and \<^verbatim>\<open>sourceAddressPrefix\<close> members, when it has them,
  are strings.
\<close>

fun str_or_absent :: "json option \<Rightarrow> bool" where
  "str_or_absent None = True"
| "str_or_absent (Some (JStr s)) = True"
| "str_or_absent (Some _) = False"

definition wf_entry :: "json \<Rightarrow> bool" where
  "wf_entry rule =
     (case rule of
        JDict d \<Rightarrow>
          (case map_of d ''properties'' of
             None \<Rightarrow> True
           | Some (JDict p) \<Rightarrow>
               str_or_absent (map_of p ''direction'') \<and> str_or_absent (map_of p ''access'')
               \<and> str_or_absent (map_of p ''sourceAddressPrefix'')
           | Some _ \<Rightarrow> False)
      | _ \<Rightarrow> False)"

section \<open>Loops and Python values\<close>

lemma for_each_append:
  "for_each body (xs @ ys) s =
     (case for_each body xs s of Inl e \<Rightarrow> Inl e | Inr s' \<Rightarrow> for_each body ys s')"
  by (induction xs arbitrary: s) (auto split: sum.splits)

lemma for_each_invariant:
  assumes "for_each body xs s = Inr s'" and "P s"
    and "\<And>x t t'. x \<in> set xs \<Longrightarrow> P t \<Longrightarrow> body x t = Inr t' \<Longrightarrow> P t'"
  shows "P s'"
  using assms
proof (induction xs arbitrary: s)
  case Nil
  then show ?case by simp
next
  case (Cons x xs)
  from Cons.prems(1) obtain t where t: "body x s = Inr t" and rest: "for_each body xs t = Inr s'"
    by (auto split: sum.splits)
  have "P t" using Cons.prems(3) [of x s t] Cons.prems(2) t by simp
  show ?case
  proof (rule Cons.IH [OF rest \<open>P t\<close>])
    fix y u u'
    assume "y \<in> set xs" and "P u" and "body y u = Inr u'"
    then show "P u'" using Cons.prems(3) [of y u u'] by simp
  qed
qed

lemma lower_Nil [simp]: "lower [] = []"
  by (simp add: lower_def)

section \<open>Graph operations\<close>

lemma edges_add_node [simp]: "edges (add_node G n a) = edges G"
  by (simp add: add_node_def split: option.splits)

lemma edges_touch_node [simp]: "edges (touch_node G n) = edges G"
  by (simp add: touch_node_def)

lemma set_edges_add_edge [simp]: "set (edges (add_edge G u v)) = insert (u, v) (set (edges G))"
  by (auto simp: add_edge_def Let_def)

lemma keys_add_node [simp]:
  "fst ` set (nodes (add_node G n a)) = insert n (fst ` set (nodes G))"
  by (auto simp: add_node_def dom_update split: option.splits dest: map_of_SomeD)

lemma keys_touch_node [simp]:
  "fst ` set (nodes (touch_node G n)) = insert n (fst ` set (nodes G))"
  by (auto simp: touch_node_def)

lemma keys_add_edge [simp]:
  "fst ` set (nodes (add_edge G u v)) = insert u (insert v (fst ` set (nodes G)))"
  by (auto simp: add_edge_def Let_def)

lemma distinct_add_node:
  "distinct (map fst (nodes G)) \<Longrightarrow> distinct (map fst (nodes (add_node G n a)))"
  by (auto simp: add_node_def distinct_update map_of_eq_None_iff split: option.splits)

lemma distinct_touch_node:
  "distinct (map fst (nodes G)) \<Longrightarrow> distinct (map fst (nodes (touch_node G n)))"
  by (auto simp: touch_node_def)

lemma distinct_add_edge:
  "distinct (map fst (nodes G)) \<Longrightarrow> distinct (map fst (nodes (add_edge G u v)))"
  by (simp add: add_edge_def Let_def distinct_touch_node)

lemma map_of_touch_node:
  "map_of (nodes (touch_node G n)) m =
     (if m = n \<and> n \<notin> fst ` set (nodes G) then Some [] else map_of (nodes G) m)"
proof (cases "n \<in> fst ` set (nodes G)")
  case True
  then show ?thesis by (simp add: touch_node_def)
next
  case False
  then have "map_of (nodes G) n = None"
    by (simp add: map_of_eq_None_iff)
  with False show ?thesis
    by (auto simp: touch_node_def map_add_def split: option.splits)
qed

lemma map_of_add_edge:
  "map_of (nodes (add_edge G u v)) m =
     (if m \<in> fst ` set (nodes G) then map_of (nodes G) m
      else if m = u \<or> m = v then Some [] else None)"
  by (auto simp: add_edge_def Let_def map_of_touch_node map_of_eq_None_iff)

lemma map_of_add_node:
  "map_of (nodes (add_node G n a)) m =
     (if m = n then Some (dict_update (case map_of (nodes G) n of None \<Rightarrow> [] | Some old \<Rightarrow> old) a)
      else map_of (nodes G) m)"
  by (auto simp: add_node_def update_conv' map_add_def split: option.splits)

lemma map_of_dict_update:
  "map_of (dict_update d other) k =
     (case map_of (rev other) k of Some v \<Rightarrow> Some v | None \<Rightarrow> map_of d k)"
proof (induction other arbitrary: d rule: rev_induct)
  case Nil
  show ?case by (simp add: dict_update_def)
next
  case (snoc x xs)
  have "dict_update d (xs @ [x]) = AList.update (fst x) (snd x) (dict_update d xs)"
    by (simp add: dict_update_def case_prod_beta)
  then show ?case
    by (cases x) (simp add: update_conv' snoc.IH)
qed

section \<open>The identity index\<close>

lemma id_to_name_snoc:
  "id_to_name (rs @ [r]) =
     (if r ''id'' \<noteq> '''' then AList.update (r ''id'') (r ''name'') (id_to_name rs)
      else id_to_name rs)"
  by (simp add: id_to_name_def)

lemma id_to_row_snoc:
  "id_to_row (rs @ [r]) =
     (if r ''id'' \<noteq> '''' then AList.update (r ''id'') r (id_to_row rs) else id_to_row rs)"
  by (simp add: id_to_row_def)

lemma id_to_row_lookup:
  "map_of (id_to_row rs) i =
     (if i \<noteq> '''' \<and> (\<exists>r\<in>set rs. r ''id'' = i)
      then Some (last (filter (\<lambda>r. r ''id'' = i) rs)) else None)"
proof (induction rs rule: rev_induct)
  case Nil
  show ?case by (simp add: id_to_row_def)
next
  case (snoc r rs)
  then show ?case
    by (auto simp: id_to_row_snoc update_conv' split: if_splits)
qed

lemma id_to_name_lookup:
  "map_of (id_to_name rs) i =
     (if i \<noteq> '''' \<and> (\<exists>r\<in>set rs. r ''id'' = i)
      then Some (last (filter (\<lambda>r. r ''id'' = i) rs) ''name'') else None)"
proof (induction rs rule: rev_induct)
  case Nil
  show ?case by (simp add: id_to_name_def)
next
  case (snoc r rs)
  then show ?case
    by (auto simp: id_to_name_snoc update_conv' split: if_splits)
qed

lemma id_to_name_keys:
  "set (map fst (id_to_name rs)) = {i. i \<noteq> '''' \<and> (\<exists>r\<in>set rs. r ''id'' = i)}"
proof -
  have "set (map fst (id_to_name rs)) = dom (map_of (id_to_name rs))"
    by (simp add: dom_map_of_conv_image_fst)
  also have "\<dots> = {i. i \<noteq> '''' \<and> (\<exists>r\<in>set rs. r ''id'' = i)}"
    by (auto simp: id_to_name_lookup dom_def)
  finally show ?thesis .
qed

text \<open>
  C9.  When rows declare the same non-empty id, both dictionaries of the identity index
  hold, under that id, the row that comes latest in input order (its name, and the row
  itself).  Building the index is a total computation: no exception is raised.
\<close>

theorem identity_index_last_write_wins:
  assumes "r \<in> set rs" and "r ''id'' \<noteq> ''''"
  shows "map_of (id_to_name rs) (r ''id'')
           = Some (last (filter (\<lambda>r'. r' ''id'' = r ''id'') rs) ''name'')
       \<and> map_of (id_to_row rs) (r ''id'')
           = Some (last (filter (\<lambda>r'. r' ''id'' = r ''id'') rs))"
  using assms by (auto simp: id_to_name_lookup id_to_row_lookup)

theorem identity_index_last_write_wins_witness:
  "map_of (id_to_name [mk_row [(''id'', ''/s/1''), (''name'', ''first'')],
                        mk_row [(''id'', ''/s/2''), (''name'', ''other'')],
                        mk_row [(''id'', ''/s/1''), (''name'', ''second'')]]) ''/s/1''
     = Some ''second''"
  using identity_index_last_write_wins
    [of "mk_row [(''id'', ''/s/1''), (''name'', ''first'')]"
        "[mk_row [(''id'', ''/s/1''), (''name'', ''first'')],
          mk_row [(''id'', ''/s/2''), (''name'', ''other'')],
          mk_row [(''id'', ''/s/1''), (''name'', ''second'')]]"]
  by (simp add: mk_row_def)

section \<open>Nodes and reference edges\<close>

lemma map_of_rev_distinct:
  "distinct (map fst xs) \<Longrightarrow> map_of (rev xs) k = map_of xs k"
proof (induction xs)
  case Nil
  show ?case by simp
next
  case (Cons x xs)
  then have "fst x \<notin> fst ` set xs" and IH: "map_of (rev xs) k = map_of xs k"
    by auto
  then have "map_of xs (fst x) = None"
    by (simp add: map_of_eq_None_iff)
  with IH show ?case
    by (cases x) (auto simp: map_add_def split: option.splits)
qed

lemma count_key_distinct:
  "distinct (map fst xs) \<Longrightarrow>
     length (filter (\<lambda>p. fst p = n) xs) = (if n \<in> fst ` set xs then 1 else 0)"
  by (induction xs) (auto simp: image_iff)

subsection \<open>Attributes of a node\<close>

lemma attr_of_add_node:
  "attr_of (add_node G n a) m key =
     (if m = n then (case map_of (rev a) key of Some v \<Rightarrow> Some v | None \<Rightarrow> attr_of G n key)
      else attr_of G m key)"
  by (auto simp: attr_of_def map_of_add_node map_of_dict_update split: option.splits)

lemma attr_of_add_node_bare [simp]: "attr_of (add_node G n []) m key = attr_of G m key"
  by (simp add: attr_of_add_node)

lemma attr_of_add_edge [simp]: "attr_of (add_edge G u v) m key = attr_of G m key"
proof (cases "m \<in> fst ` set (nodes G)")
  case True
  then show ?thesis by (simp add: attr_of_def map_of_add_edge)
next
  case False
  then have "map_of (nodes G) m = None"
    by (simp add: map_of_eq_None_iff)
  with False show ?thesis by (simp add: attr_of_def map_of_add_edge)
qed

subsection \<open>The attributes of a row\<close>

lemma row_attrs_snoc:
  "row_attrs (cols @ [c]) r =
     (if r c \<noteq> '''' then AList.update c (AStr (r c)) (row_attrs cols r) else row_attrs cols r)"
  by (simp add: row_attrs_def)

lemma map_of_row_attrs:
  "map_of (row_attrs cols r) key =
     (if key \<in> set cols \<and> r key \<noteq> '''' then Some (AStr (r key)) else None)"
proof (induction cols rule: rev_induct)
  case Nil
  show ?case by (simp add: row_attrs_def)
next
  case (snoc c cols)
  then show ?case
    by (auto simp: row_attrs_snoc update_conv')
qed

lemma distinct_row_attrs: "distinct (map fst (row_attrs cols r))"
proof (induction cols rule: rev_induct)
  case Nil
  show ?case by (simp add: row_attrs_def)
next
  case (snoc c cols)
  then show ?case
    by (simp add: row_attrs_snoc distinct_update)
qed

lemma attr_of_add_row:
  "attr_of (add_node G n (row_attrs cols r)) m key =
     (if m = n \<and> key \<in> set cols \<and> r key \<noteq> '''' then Some (AStr (r key)) else attr_of G m key)"
  by (simp add: attr_of_add_node map_of_rev_distinct distinct_row_attrs map_of_row_attrs)

subsection \<open>The loop over the nodes\<close>

lemma node_step_Inr:
  assumes "node_step cols r G = Inr G'"
  shows "G' = (if r ''name'' = '''' then G else add_node G (r ''name'') (row_attrs cols r))"
  using assms by (auto simp: node_step_def call_add_node_def Let_def split: if_splits)

lemma node_pass_edges:
  assumes "for_each (node_step cols) rs G = Inr G'"
  shows "edges G' = edges G"
  by (rule for_each_invariant [OF assms, where P = "\<lambda>H. edges H = edges G"])
     (auto dest!: node_step_Inr split: if_splits)

lemma node_pass_distinct:
  assumes "for_each (node_step cols) rs G = Inr G'" and "distinct (map fst (nodes G))"
  shows "distinct (map fst (nodes G'))"
  by (rule for_each_invariant [OF assms(1), where P = "\<lambda>H. distinct (map fst (nodes H))"])
     (auto simp: assms(2) distinct_add_node dest!: node_step_Inr split: if_splits)

lemma node_pass_keys:
  assumes "for_each (node_step cols) rs G = Inr G'"
  shows "fst ` set (nodes G') = fst ` set (nodes G) \<union> {r ''name'' | r. r \<in> set rs \<and> r ''name'' \<noteq> ''''}"
  using assms
proof (induction rs arbitrary: G)
  case Nil
  then show ?case by simp
next
  case (Cons r rs)
  from Cons.prems obtain H where H: "node_step cols r G = Inr H"
    and rest: "for_each (node_step cols) rs H = Inr G'"
    by (auto split: sum.splits)
  from node_step_Inr [OF H] Cons.IH [OF rest] show ?case
    by (auto split: if_splits)
qed

lemma merged_attr_snoc:
  "merged_attr cols (rs @ [r]) name key =
     (if r ''name'' = name \<and> r key \<noteq> '''' \<and> key \<in> set cols then Some (AStr (r key))
      else merged_attr cols rs name key)"
  by (auto simp: merged_attr_def split: list.splits)

lemma node_pass_attr:
  assumes "for_each (node_step cols) rs G = Inr G'" and "name \<noteq> ''''"
  shows "attr_of G' name key =
     (case merged_attr cols rs name key of Some v \<Rightarrow> Some v | None \<Rightarrow> attr_of G name key)"
  using assms(1)
proof (induction rs arbitrary: G' rule: rev_induct)
  case Nil
  then show ?case by (simp add: merged_attr_def)
next
  case (snoc r rs)
  from snoc.prems obtain H where H: "for_each (node_step cols) rs G = Inr H"
    and last: "node_step cols r H = Inr G'"
    by (auto simp: for_each_append split: sum.splits)
  from node_step_Inr [OF last] snoc.IH [OF H] assms(2) show ?case
    by (auto simp: merged_attr_snoc attr_of_add_row split: if_splits)
qed

subsection \<open>The loop over the references\<close>

lemma ref_step_edges:
  "set (edges (ref_step idx r hay cid G)) =
     set (edges G) \<union> {(r ''name'', t) | t. cid \<noteq> r ''id'' \<and> str_in cid hay
                                          \<and> map_of idx cid = Some t \<and> t \<noteq> ''''}"
  by (auto simp: ref_step_def split: option.splits)

lemma ref_steps_edges:
  "set (edges (fold (ref_step idx r hay) cids G)) =
     set (edges G) \<union> {(r ''name'', t) | t. t \<noteq> '''' \<and>
        (\<exists>cid\<in>set cids. cid \<noteq> r ''id'' \<and> str_in cid hay \<and> map_of idx cid = Some t)}"
proof (induction cids arbitrary: G)
  case Nil
  show ?case by simp
next
  case (Cons cid cids)
  show ?case
    unfolding fold_simps Cons.IH ref_step_edges by auto
qed

lemma ref_row_edges:
  "set (edges (ref_row idx cands sc r G)) =
     set (edges G) \<union> {(r ''name'', t) | t. refers idx cands sc r t}"
  by (auto simp: ref_row_def ref_steps_edges refers_def)

lemma ref_pass_edges:
  "set (edges (fold (ref_row idx cands sc) rs G)) =
     set (edges G) \<union> {(r ''name'', t) | r t. r \<in> set rs \<and> refers idx cands sc r t}"
proof (induction rs arbitrary: G)
  case Nil
  show ?case by simp
next
  case (Cons r rs)
  show ?case
    unfolding fold_simps Cons.IH ref_row_edges by auto
qed

lemma ref_step_attr [simp]: "attr_of (ref_step idx r hay cid G) n key = attr_of G n key"
  by (simp add: ref_step_def split: option.splits)

lemma ref_step_distinct:
  "distinct (map fst (nodes G)) \<Longrightarrow> distinct (map fst (nodes (ref_step idx r hay cid G)))"
  by (simp add: ref_step_def distinct_add_edge distinct_add_node split: option.splits)

lemma ref_step_keys: "fst ` set (nodes G) \<subseteq> fst ` set (nodes (ref_step idx r hay cid G))"
  by (auto simp: ref_step_def split: option.splits)

lemma ref_row_attr [simp]: "attr_of (ref_row idx cands sc r G) n key = attr_of G n key"
proof -
  have "attr_of (fold (ref_step idx r hay) cids G) n key = attr_of G n key" for hay cids
    by (induction cids arbitrary: G) simp_all
  then show ?thesis by (simp add: ref_row_def)
qed

lemma ref_row_distinct:
  assumes "distinct (map fst (nodes G))"
  shows "distinct (map fst (nodes (ref_row idx cands sc r G)))"
proof -
  have "distinct (map fst (nodes G)) \<Longrightarrow> distinct (map fst (nodes (fold (ref_step idx r hay) cids G)))"
    for hay cids G
    by (induction cids arbitrary: G) (simp_all add: ref_step_distinct)
  with assms show ?thesis by (simp add: ref_row_def)
qed

lemma ref_row_keys: "fst ` set (nodes G) \<subseteq> fst ` set (nodes (ref_row idx cands sc r G))"
proof -
  have "fst ` set (nodes G) \<subseteq> fst ` set (nodes (fold (ref_step idx r hay) cids G))" for hay cids G
  proof (induction cids arbitrary: G)
    case Nil
    show ?case by simp
  next
    case (Cons c cids)
    show ?case using ref_step_keys [of G idx r hay c] Cons.IH [of "ref_step idx r hay c G"]
      by auto
  qed
  then show ?thesis by (simp add: ref_row_def)
qed

lemma ref_pass_attr [simp]:
  "attr_of (fold (ref_row idx cands sc) rs G) n key = attr_of G n key"
  by (induction rs arbitrary: G) simp_all

lemma ref_pass_distinct:
  "distinct (map fst (nodes G)) \<Longrightarrow> distinct (map fst (nodes (fold (ref_row idx cands sc) rs G)))"
  by (induction rs arbitrary: G) (simp_all add: ref_row_distinct)

lemma ref_pass_keys: "fst ` set (nodes G) \<subseteq> fst ` set (nodes (fold (ref_row idx cands sc) rs G))"
proof (induction rs arbitrary: G)
  case Nil
  show ?case by simp
next
  case (Cons r rs)
  show ?case using ref_row_keys [of G idx cands sc r] Cons.IH [of "ref_row idx cands sc r G"]
    by auto
qed

subsection \<open>The reference graph\<close>

lemma reference_graph_Inr:
  assumes "reference_graph df = Inr G"
  obtains G1 where "for_each (node_step (columns df)) (rows df) empty_graph = Inr G1"
    and "G = fold (ref_row (id_to_name (rows df)) (map fst (id_to_name (rows df)))
                     (search_columns (columns df))) (rows df) G1"
  using assms unfolding reference_graph_def
  by (auto simp: Let_def split: sum.splits)

lemma reference_graph_distinct:
  assumes "reference_graph df = Inr G"
  shows "distinct (map fst (nodes G))"
proof -
  from assms obtain G1 where G1: "for_each (node_step (columns df)) (rows df) empty_graph = Inr G1"
    and G: "G = fold (ref_row (id_to_name (rows df)) (map fst (id_to_name (rows df)))
                     (search_columns (columns df))) (rows df) G1"
    by (rule reference_graph_Inr)
  have "distinct (map fst (nodes G1))"
    by (rule node_pass_distinct [OF G1]) (simp add: empty_graph_def)
  then show ?thesis unfolding G by (rule ref_pass_distinct)
qed

lemma reference_graph_edges:
  assumes "reference_graph df = Inr G"
  shows "set (edges G) =
     {(r ''name'', t) | r t. r \<in> set (rows df) \<and>
        refers (id_to_name (rows df)) (map fst (id_to_name (rows df)))
               (search_columns (columns df)) r t}"
proof -
  from assms obtain G1 where G1: "for_each (node_step (columns df)) (rows df) empty_graph = Inr G1"
    and G: "G = fold (ref_row (id_to_name (rows df)) (map fst (id_to_name (rows df)))
                     (search_columns (columns df))) (rows df) G1"
    by (rule reference_graph_Inr)
  have "edges G1 = []"
    using node_pass_edges [OF G1] by (simp add: empty_graph_def)
  then show ?thesis unfolding G ref_pass_edges by simp
qed

lemma reference_graph_attr:
  assumes "reference_graph df = Inr G" and "name \<noteq> ''''"
  shows "attr_of G name key = merged_attr (columns df) (rows df) name key"
proof -
  obtain G1 where G1: "for_each (node_step (columns df)) (rows df) empty_graph = Inr G1"
    and G: "G = fold (ref_row (id_to_name (rows df)) (map fst (id_to_name (rows df)))
                     (search_columns (columns df))) (rows df) G1"
    by (rule reference_graph_Inr [OF assms(1)])
  have "attr_of empty_graph name key = None"
    by (simp add: attr_of_def empty_graph_def)
  with node_pass_attr [OF G1 assms(2), of key] show ?thesis
    unfolding G by (simp split: option.splits)
qed

lemma reference_graph_keys:
  assumes "reference_graph df = Inr G" and "r \<in> set (rows df)" and "r ''name'' \<noteq> ''''"
  shows "r ''name'' \<in> fst ` set (nodes G)"
proof -
  obtain G1 where G1: "for_each (node_step (columns df)) (rows df) empty_graph = Inr G1"
    and G: "G = fold (ref_row (id_to_name (rows df)) (map fst (id_to_name (rows df)))
                     (search_columns (columns df))) (rows df) G1"
    by (rule reference_graph_Inr [OF assms(1)])
  from node_pass_keys [OF G1] assms(2,3) have "r ''name'' \<in> fst ` set (nodes G1)"
    by auto
  then show ?thesis unfolding G using ref_pass_keys by blast
qed

subsection \<open>Substrings and the haystack\<close>

lemma str_in_iff: "str_in x y \<longleftrightarrow> (\<exists>ps ss. y = ps @ x @ ss)"
proof (induction y)
  case Nil
  show ?case by auto
next
  case (Cons c cs)
  show ?case
  proof
    assume "str_in x (c # cs)"
    then consider "prefix x (c # cs)" | "str_in x cs" by auto
    then show "\<exists>ps ss. c # cs = ps @ x @ ss"
    proof cases
      case 1
      then obtain ss where "c # cs = x @ ss" by (auto simp: prefix_def)
      then have "c # cs = [] @ x @ ss" by simp
      then show ?thesis by blast
    next
      case 2
      with Cons.IH obtain ps ss where "cs = ps @ x @ ss" by auto
      then have "c # cs = (c # ps) @ x @ ss" by simp
      then show ?thesis by blast
    qed
  next
    assume "\<exists>ps ss. c # cs = ps @ x @ ss"
    then obtain ps ss where eq: "c # cs = ps @ x @ ss" by auto
    show "str_in x (c # cs)"
    proof (cases ps)
      case Nil
      with eq have "prefix x (c # cs)" by (simp add: prefix_def)
      then show ?thesis by simp
    next
      case (Cons p ps')
      with eq have "cs = ps' @ x @ ss" by simp
      with Cons.IH have "str_in x cs" by auto
      then show ?thesis by simp
    qed
  qed
qed

lemma join_split:
  "y \<in> set xs \<Longrightarrow> \<exists>pre post. join sep xs = pre @ y @ post"
proof (induction sep xs rule: join.induct)
  case (1 sep)
  then show ?case by simp
next
  case (2 sep x)
  then have "join sep [x] = [] @ y @ []" by simp
  then show ?case by blast
next
  case (3 sep x z zs)
  show ?case
  proof (cases "y = x")
    case True
    then have "join sep (x # z # zs) = [] @ y @ (sep @ join sep (z # zs))" by simp
    then show ?thesis by blast
  next
    case False
    with 3 obtain pre post where "join sep (z # zs) = pre @ y @ post" by auto
    then have "join sep (x # z # zs) = (x @ sep @ pre) @ y @ post" by simp
    then show ?thesis by blast
  qed
qed

lemma str_in_haystack:
  assumes "c \<in> set sc" and "str_in x (r c)"
  shows "str_in x (haystack sc r)"
proof -
  from assms(2) obtain ps ss where f: "r c = ps @ x @ ss"
    by (auto simp: str_in_iff)
  from assms(1) have "r c \<in> set (map r sc)" by simp
  then obtain pre post where "join '' '' (map r sc) = pre @ r c @ post"
    using join_split by blast
  with f have "haystack sc r = (pre @ ps) @ x @ (ss @ post)"
    by (simp add: haystack_def)
  then show ?thesis unfolding str_in_iff by blast
qed

lemma properties_searched:
  "''properties'' \<in> set cols \<Longrightarrow> ''properties'' \<in> set (search_columns cols)"
  by (auto simp: search_columns_def Let_def filter_empty_conv)

lemma id_to_name_resolves:
  assumes "map_of (id_to_name rs) cid = Some t"
  obtains r where "r \<in> set rs" and "r ''id'' = cid" and "r ''name'' = t" and "cid \<noteq> ''''"
proof -
  from assms have ne: "cid \<noteq> ''''" and ex: "\<exists>r\<in>set rs. r ''id'' = cid"
    and t: "t = last (filter (\<lambda>r. r ''id'' = cid) rs) ''name''"
    by (auto simp: id_to_name_lookup split: if_splits)
  from ex have "filter (\<lambda>r. r ''id'' = cid) rs \<noteq> []"
    by (auto simp: filter_empty_conv)
  then have "last (filter (\<lambda>r. r ''id'' = cid) rs) \<in> set (filter (\<lambda>r. r ''id'' = cid) rs)"
    by (rule last_in_set)
  then have "last (filter (\<lambda>r. r ''id'' = cid) rs) \<in> set rs"
    and "last (filter (\<lambda>r. r ''id'' = cid) rs) ''id'' = cid"
    by auto
  with t ne that show ?thesis by blast
qed




section \<open>Exposure\<close>

lemma mark_exposed_flag [simp]: "snd (mark_exposed st n)"
  by (simp add: mark_exposed_def Let_def)

lemma is_exposed_storage:
  "is_exposed ''microsoft.storage/storageaccounts'' p = Inr True \<longleftrightarrow> storage_open p"
proof (cases p)
  case (JDict d)
  show ?thesis
  proof (cases "map_of d ''networkAcls''")
    case None
    with JDict show ?thesis
      by (simp add: is_exposed_def storage_open_def)
  next
    case (Some acls)
    show ?thesis
    proof (cases acls)
      case (JDict a)
      show ?thesis
      proof (cases "map_of a ''defaultAction''")
        case None
        with \<open>p = JDict d\<close> Some JDict show ?thesis
          by (simp add: is_exposed_def storage_open_def)
      next
        case (Some x)
        with \<open>p = JDict d\<close> \<open>map_of d ''networkAcls'' = Some acls\<close> JDict show ?thesis
          by (cases x) (simp_all add: is_exposed_def storage_open_def)
      qed
    qed (use \<open>p = JDict d\<close> Some in \<open>simp_all add: is_exposed_def storage_open_def\<close>)
  qed
qed (simp_all add: is_exposed_def storage_open_def)

lemma py_get_error: "py_get v key dflt = Inl e \<Longrightarrow> e = AttributeError"
  by (cases v) auto

lemma py_lower_error: "py_lower v = Inl e \<Longrightarrow> e = AttributeError"
  by (cases v) auto

lemma is_exposed_storage_error:
  "is_exposed ''microsoft.storage/storageaccounts'' p = Inl e \<Longrightarrow> e = AttributeError"
  unfolding is_exposed_def
  by (auto split: sum.splits dest: py_get_error py_lower_error)

lemma expose_step_cases:
  assumes "expose_step loads cols r st = Inr st'"
  shows "st' = st \<or> st' = mark_exposed st (r ''name'')"
  using assms
  by (auto simp: expose_step_def Let_def split: option.splits sum.splits if_splits)

lemma mark_exposed_edges:
  "set (edges (fst (mark_exposed st n))) = insert (internet_node_name, n) (set (edges (fst st)))"
  by (simp add: mark_exposed_def Let_def)

lemma expose_step_edges_mono:
  assumes "expose_step loads cols r st = Inr st'"
  shows "set (edges (fst st)) \<subseteq> set (edges (fst st'))"
  using expose_step_cases [OF assms] by (auto simp: mark_exposed_edges)

lemma expose_loop_edges_mono:
  assumes "for_each (expose_step loads cols) rs st = Inr st'"
  shows "set (edges (fst st)) \<subseteq> set (edges (fst st'))"
proof -
  have "set (edges (fst st)) \<subseteq> set (edges (fst st'))"
    by (rule for_each_invariant [OF assms, where P = "\<lambda>t. set (edges (fst st)) \<subseteq> set (edges (fst t))"])
       (use expose_step_edges_mono in blast)+
  then show ?thesis .
qed

lemma expose_loop_member:
  assumes loop: "for_each (expose_step loads cols) rs st = Inr st'"
    and r: "r \<in> set rs"
    and step: "\<And>t. expose_step loads cols r t = Inr (mark_exposed t (r ''name''))"
  shows "(internet_node_name, r ''name'') \<in> set (edges (fst st'))"
proof -
  from r obtain xs ys where rs: "rs = xs @ r # ys"
    by (auto dest: split_list)
  from loop obtain t where "for_each (expose_step loads cols) xs st = Inr t"
    and rest: "for_each (expose_step loads cols) (r # ys) t = Inr st'"
    unfolding rs for_each_append by (auto split: sum.splits)
  from rest have "for_each (expose_step loads cols) ys (mark_exposed t (r ''name'')) = Inr st'"
    by (simp add: step)
  from expose_loop_edges_mono [OF this] show ?thesis
    by (auto simp: mark_exposed_edges)
qed

lemma build_Inr:
  assumes "build_graph_from_csv loads df = Inr G"
  obtains G2 flag where "''id'' \<in> set (columns df)" and "''name'' \<in> set (columns df)"
    and "reference_graph df = Inr G2"
    and "for_each (expose_step loads (columns df)) (rows df) (G2, False) = Inr (G, flag)"
  using assms unfolding build_graph_from_csv_def
  by (auto split: if_splits sum.splits)

lemma expose_step_storage:
  assumes "lower (row_get cols r ''type'' '''') = ''microsoft.storage/storageaccounts''"
    and "loads (row_get cols r ''properties'' ''{}'') = Inr properties"
  shows "expose_step loads cols r st
           = Inr (if storage_open properties then mark_exposed st (r ''name'') else st)"
proof (cases "is_exposed ''microsoft.storage/storageaccounts'' properties")
  case (Inl e)
  then have "e = AttributeError" by (rule is_exposed_storage_error)
  moreover from Inl have "\<not> storage_open properties"
    using is_exposed_storage [of properties] by simp
  ultimately show ?thesis
    using assms Inl by (simp add: expose_step_def try_body_def)
next
  case (Inr b)
  then have "b = storage_open properties"
    using is_exposed_storage [of properties] by auto
  then show ?thesis
    using assms Inr by (simp add: expose_step_def try_body_def)
qed

lemma expose_step_exposed:
  assumes "expose_step loads cols r st = Inr st'"
  shows "st' = (if row_exposed loads cols r then mark_exposed st (r ''name'') else st)"
  using assms
  by (auto simp: expose_step_def row_exposed_def Let_def split: sum.splits if_splits)

lemma row_exposed_step:
  "row_exposed loads cols r \<Longrightarrow> expose_step loads cols r st = Inr (mark_exposed st (r ''name''))"
  by (simp add: expose_step_def row_exposed_def)

lemma expose_loop_flag:
  assumes "for_each (expose_step loads cols) rs st = Inr st'"
  shows "snd st' = (snd st \<or> (\<exists>r\<in>set rs. row_exposed loads cols r))"
  using assms
proof (induction rs arbitrary: st)
  case Nil
  then show ?case by simp
next
  case (Cons r rs)
  from Cons.prems obtain t where t: "expose_step loads cols r st = Inr t"
    and rest: "for_each (expose_step loads cols) rs t = Inr st'"
    by (auto split: sum.splits)
  from expose_step_exposed [OF t] have "snd t = (snd st \<or> row_exposed loads cols r)"
    by (simp add: mark_exposed_def Let_def)
  with Cons.IH [OF rest] show ?case by auto
qed

lemma expose_loop_edges_exact:
  assumes "for_each (expose_step loads cols) rs st = Inr st'"
  shows "set (edges (fst st')) =
     set (edges (fst st)) \<union> {(internet_node_name, r ''name'') | r. r \<in> set rs \<and> row_exposed loads cols r}"
  using assms
proof (induction rs arbitrary: st)
  case Nil
  then show ?case by simp
next
  case (Cons r rs)
  from Cons.prems obtain t where t: "expose_step loads cols r st = Inr t"
    and rest: "for_each (expose_step loads cols) rs t = Inr st'"
    by (auto split: sum.splits)
  from expose_step_exposed [OF t]
  have "set (edges (fst t)) =
      set (edges (fst st)) \<union> {(internet_node_name, r ''name'') | r'. r' = r \<and> row_exposed loads cols r}"
    by (auto simp: mark_exposed_edges)
  with Cons.IH [OF rest] show ?case by auto
qed

lemma row_exposed_storage:
  assumes "lower (row_get cols r ''type'' '''') = ''microsoft.storage/storageaccounts''"
    and "loads (row_get cols r ''properties'' ''{}'') = Inr properties"
  shows "row_exposed loads cols r = storage_open properties"
  using assms is_exposed_storage [of properties]
  by (simp add: row_exposed_def try_body_def)

lemma build_internet_edges:
  assumes "build_graph_from_csv loads df = Inr G"
  shows "(internet_node_name, n) \<in> set (edges G) \<longleftrightarrow>
     (\<exists>r\<in>set (rows df). r ''name'' = n \<and> row_exposed loads (columns df) r)
     \<or> (\<exists>r\<in>set (rows df). r ''name'' = internet_node_name
            \<and> refers (id_to_name (rows df)) (map fst (id_to_name (rows df)))
                 (search_columns (columns df)) r n)"
proof -
  from assms obtain G2 flag where G2: "reference_graph df = Inr G2"
    and loop: "for_each (expose_step loads (columns df)) (rows df) (G2, False) = Inr (G, flag)"
    by (rule build_Inr)
  show ?thesis
    using expose_loop_edges_exact [OF loop] reference_graph_edges [OF G2]
    by auto
qed

text \<open>
  C4.  For a row whose \<^verbatim>\<open>type\<close> lowercases to the storage account type and whose
  \<^verbatim>\<open>properties\<close> decode, the row's turn of the exposure loop adds the edge from the Internet
  node to the row's name exactly when \<^verbatim>\<open>properties.networkAcls.defaultAction\<close> lowercased
  is \<^verbatim>\<open>"allow"\<close>, and otherwise leaves the graph as it was (so \<^verbatim>\<open>"Deny"\<close> adds nothing).  The
  graph the build returns has that edge exactly when the value is \<^verbatim>\<open>"allow"\<close>, or another
  row of the same name is exposed, or a row called \<^verbatim>\<open>Internet\<close> refers to the name.
\<close>

theorem storage_account_exposure:
  assumes "lower (row_get cols r ''type'' '''') = ''microsoft.storage/storageaccounts''"
    and "loads (row_get cols r ''properties'' ''{}'') = Inr properties"
  shows "expose_step loads cols r st
           = Inr (if storage_open properties then mark_exposed st (r ''name'') else st)
       \<and> set (edges (fst (mark_exposed st (r ''name''))))
           = insert (internet_node_name, r ''name'') (set (edges (fst st)))
       \<and> (cols = columns df \<and> r \<in> set (rows df) \<and> build_graph_from_csv loads df = Inr G
          \<longrightarrow> ((internet_node_name, r ''name'') \<in> set (edges G) \<longleftrightarrow>
                 storage_open properties
                 \<or> (\<exists>r'\<in>set (rows df). r' \<noteq> r \<and> r' ''name'' = r ''name''
                        \<and> row_exposed loads cols r')
                 \<or> (\<exists>r'\<in>set (rows df). r' ''name'' = internet_node_name
                        \<and> refers (id_to_name (rows df)) (map fst (id_to_name (rows df)))
                             (search_columns cols) r' (r ''name''))))"
proof (intro conjI impI)
  show "expose_step loads cols r st
           = Inr (if storage_open properties then mark_exposed st (r ''name'') else st)"
    using assms by (rule expose_step_storage)
  show "set (edges (fst (mark_exposed st (r ''name''))))
           = insert (internet_node_name, r ''name'') (set (edges (fst st)))"
    by (rule mark_exposed_edges)
next
  assume a: "cols = columns df \<and> r \<in> set (rows df) \<and> build_graph_from_csv loads df = Inr G"
  have own: "row_exposed loads cols r = storage_open properties"
    using assms by (rule row_exposed_storage)
  have "(\<exists>r'\<in>set (rows df). r' ''name'' = r ''name'' \<and> row_exposed loads cols r')
      \<longleftrightarrow> storage_open properties
          \<or> (\<exists>r'\<in>set (rows df). r' \<noteq> r \<and> r' ''name'' = r ''name'' \<and> row_exposed loads cols r')"
    using a own by auto
  with a build_internet_edges [of loads df G "r ''name''"]
  show "(internet_node_name, r ''name'') \<in> set (edges G) \<longleftrightarrow>
                 storage_open properties
                 \<or> (\<exists>r'\<in>set (rows df). r' \<noteq> r \<and> r' ''name'' = r ''name''
                        \<and> row_exposed loads cols r')
                 \<or> (\<exists>r'\<in>set (rows df). r' ''name'' = internet_node_name
                        \<and> refers (id_to_name (rows df)) (map fst (id_to_name (rows df)))
                             (search_columns cols) r' (r ''name''))"
    by simp
qed

theorem storage_account_exposure_witness:
  \<open>(\<exists>G. build_graph_from_csv
          (decoder_of [(''{"networkAcls": {"defaultAction": "Allow"}}'',
                        JDict [(''networkAcls'', JDict [(''defaultAction'', JStr ''Allow'')])])])
          \<lparr>columns = [''id'', ''name'', ''type'', ''properties''],
           rows = [mk_row [(''id'', ''/s/1''), (''name'', ''store1''),
                           (''type'', ''Microsoft.Storage/storageAccounts''),
                           (''properties'', ''{"networkAcls": {"defaultAction": "Allow"}}'')]]\<rparr>
          = Inr G
        \<and> (internet_node_name, ''store1'') \<in> set (edges G))
   \<and> (\<exists>G. build_graph_from_csv
          (decoder_of [(''{"networkAcls": {"defaultAction": "Deny"}}'',
                        JDict [(''networkAcls'', JDict [(''defaultAction'', JStr ''Deny'')])])])
          \<lparr>columns = [''id'', ''name'', ''type'', ''properties''],
           rows = [mk_row [(''id'', ''/s/1''), (''name'', ''store1''),
                           (''type'', ''Microsoft.Storage/storageAccounts''),
                           (''properties'', ''{"networkAcls": {"defaultAction": "Deny"}}'')]]\<rparr>
          = Inr G
        \<and> (internet_node_name, ''store1'') \<notin> set (edges G))\<close>
proof -
  let ?cols = \<open>[''id'', ''name'', ''type'', ''properties'']\<close>
  let ?LA = \<open>decoder_of [(''{"networkAcls": {"defaultAction": "Allow"}}'',
                        JDict [(''networkAcls'', JDict [(''defaultAction'', JStr ''Allow'')])])]\<close>
  let ?LD = \<open>decoder_of [(''{"networkAcls": {"defaultAction": "Deny"}}'',
                        JDict [(''networkAcls'', JDict [(''defaultAction'', JStr ''Deny'')])])]\<close>
  let ?rA = \<open>mk_row [(''id'', ''/s/1''), (''name'', ''store1''),
                           (''type'', ''Microsoft.Storage/storageAccounts''),
                           (''properties'', ''{"networkAcls": {"defaultAction": "Allow"}}'')]\<close>
  let ?rD = \<open>mk_row [(''id'', ''/s/1''), (''name'', ''store1''),
                           (''type'', ''Microsoft.Storage/storageAccounts''),
                           (''properties'', ''{"networkAcls": {"defaultAction": "Deny"}}'')]\<close>
  let ?DA = \<open>\<lparr>columns = ?cols, rows = [?rA]\<rparr>\<close>
  let ?DD = \<open>\<lparr>columns = ?cols, rows = [?rD]\<rparr>\<close>
  have low: "lower ''Microsoft.Storage/storageAccounts'' = ''microsoft.storage/storageaccounts''"
    "lower ''Allow'' = ''allow''" "lower ''Deny'' = ''deny''"
    by code_simp+
  have "case build_graph_from_csv ?LA ?DA of Inl e \<Rightarrow> False | Inr G \<Rightarrow> True"
    by code_simp
  then obtain GA where eA: "build_graph_from_csv ?LA ?DA = Inr GA"
    by (auto split: sum.splits)
  have "case build_graph_from_csv ?LD ?DD of Inl e \<Rightarrow> False | Inr G \<Rightarrow> True"
    by code_simp
  then obtain GD where eD: "build_graph_from_csv ?LD ?DD = Inr GD"
    by (auto split: sum.splits)
  have "(internet_node_name, ''store1'') \<in> set (edges GA)"
    using storage_account_exposure
      [of ?cols ?rA ?LA \<open>JDict [(''networkAcls'', JDict [(''defaultAction'', JStr ''Allow'')])]\<close>
          _ ?DA GA] eA
    by (simp add: row_get_def mk_row_def decoder_of_def storage_open_def low)
  moreover have "(internet_node_name, ''store1'') \<notin> set (edges GD)"
    using storage_account_exposure
      [of ?cols ?rD ?LD \<open>JDict [(''networkAcls'', JDict [(''defaultAction'', JStr ''Deny'')])]\<close>
          _ ?DD GD] eD
    by (simp add: row_get_def mk_row_def decoder_of_def storage_open_def low
        internet_node_name_def)
  ultimately show ?thesis using eA eD by blast
qed

text \<open>
  Two storage accounts called \<^verbatim>\<open>store1\<close>, the first with \<^verbatim>\<open>"Allow"\<close>, the second with
  \<^verbatim>\<open>"Deny"\<close>: edges are keyed by name, so the graph has the edge from the Internet node to
  the name of the row whose \<^verbatim>\<open>defaultAction\<close> is \<^verbatim>\<open>"Deny"\<close>.
\<close>

theorem storage_account_exposure_counterexample:
  \<open>build_graph_from_csv
     (decoder_of [(''{"networkAcls": {"defaultAction": "Allow"}}'',
                   JDict [(''networkAcls'', JDict [(''defaultAction'', JStr ''Allow'')])]),
                  (''{"networkAcls": {"defaultAction": "Deny"}}'',
                   JDict [(''networkAcls'', JDict [(''defaultAction'', JStr ''Deny'')])])])
     \<lparr>columns = [''id'', ''name'', ''type'', ''properties''],
      rows = [mk_row [(''id'', ''/s/1''), (''name'', ''store1''),
                      (''type'', ''Microsoft.Storage/storageAccounts''),
                      (''properties'', ''{"networkAcls": {"defaultAction": "Allow"}}'')],
              mk_row [(''id'', ''/s/2''), (''name'', ''store1''),
                      (''type'', ''Microsoft.Storage/storageAccounts''),
                      (''properties'', ''{"networkAcls": {"defaultAction": "Deny"}}'')]]\<rparr>
   = Inr \<lparr>nodes = [(''store1'',
                      [(''id'', AStr ''/s/2''), (''name'', AStr ''store1''),
                       (''type'', AStr ''Microsoft.Storage/storageAccounts''),
                       (''properties'', AStr ''{"networkAcls": {"defaultAction": "Deny"}}'')]),
                     (''Internet'', [(''type'', AStr ''Internet''), (''group'', AStr ''Internet''),
                                      (''size'', AInt 40)])],
           edges = [(''Internet'', ''store1'')]\<rparr>
   \<and> \<not> storage_open (JDict [(''networkAcls'', JDict [(''defaultAction'', JStr ''Deny'')])])\<close>
  by (rule conjI; code_simp)

lemma mark_exposed_distinct:
  "distinct (map fst (nodes (fst st))) \<Longrightarrow> distinct (map fst (nodes (fst (mark_exposed st n))))"
  by (simp add: mark_exposed_def Let_def distinct_add_edge distinct_add_node)

lemma mark_exposed_keys: "fst ` set (nodes (fst st)) \<subseteq> fst ` set (nodes (fst (mark_exposed st n)))"
  by (auto simp: mark_exposed_def Let_def)

lemma mark_exposed_attr:
  "m \<noteq> internet_node_name \<Longrightarrow> attr_of (fst (mark_exposed st n)) m key = attr_of (fst st) m key"
  by (simp add: mark_exposed_def Let_def attr_of_add_node)

lemma expose_loop_distinct:
  assumes "for_each (expose_step loads cols) rs st = Inr st'" and "distinct (map fst (nodes (fst st)))"
  shows "distinct (map fst (nodes (fst st')))"
  by (rule for_each_invariant [OF assms(1), where P = "\<lambda>t. distinct (map fst (nodes (fst t)))"])
     (auto simp: assms(2) mark_exposed_distinct dest!: expose_step_cases)

lemma expose_step_keys:
  assumes "expose_step loads cols r st = Inr st'"
  shows "fst ` set (nodes (fst st)) \<subseteq> fst ` set (nodes (fst st'))"
  using expose_step_cases [OF assms] mark_exposed_keys [of st "r ''name''"] by auto

lemma expose_loop_keys:
  assumes "for_each (expose_step loads cols) rs st = Inr st'"
  shows "fst ` set (nodes (fst st)) \<subseteq> fst ` set (nodes (fst st'))"
proof (rule for_each_invariant [OF assms,
      where P = "\<lambda>t. fst ` set (nodes (fst st)) \<subseteq> fst ` set (nodes (fst t))"])
  show "fst ` set (nodes (fst st)) \<subseteq> fst ` set (nodes (fst st))" by simp
next
  fix x t t'
  assume "fst ` set (nodes (fst st)) \<subseteq> fst ` set (nodes (fst t))"
    and "expose_step loads cols x t = Inr t'"
  then show "fst ` set (nodes (fst st)) \<subseteq> fst ` set (nodes (fst t'))"
    using expose_step_keys [of loads cols x t t'] by blast
qed

lemma expose_loop_attr:
  assumes "for_each (expose_step loads cols) rs st = Inr st'" and "m \<noteq> internet_node_name"
  shows "attr_of (fst st') m key = attr_of (fst st) m key"
  by (rule for_each_invariant [OF assms(1), where P = "\<lambda>t. attr_of (fst t) m key = attr_of (fst st) m key"])
     (auto simp: mark_exposed_attr assms(2) dest!: expose_step_cases)

lemma expose_step_edges_upper:
  assumes "expose_step loads cols r st = Inr st'"
  shows "set (edges (fst st')) \<subseteq> insert (internet_node_name, r ''name'') (set (edges (fst st)))"
  using expose_step_cases [OF assms] by (auto simp: mark_exposed_edges)

lemma expose_loop_edges:
  assumes "for_each (expose_step loads cols) rs st = Inr st'"
  shows "set (edges (fst st'))
           \<subseteq> set (edges (fst st)) \<union> {(internet_node_name, r ''name'') | r. r \<in> set rs}"
proof (rule for_each_invariant [OF assms,
      where P = "\<lambda>t. set (edges (fst t))
           \<subseteq> set (edges (fst st)) \<union> {(internet_node_name, r ''name'') | r. r \<in> set rs}"])
  show "set (edges (fst st))
           \<subseteq> set (edges (fst st)) \<union> {(internet_node_name, r ''name'') | r. r \<in> set rs}"
    by simp
next
  fix x t t'
  assume "x \<in> set rs"
    and "set (edges (fst t))
           \<subseteq> set (edges (fst st)) \<union> {(internet_node_name, r ''name'') | r. r \<in> set rs}"
    and "expose_step loads cols x t = Inr t'"
  then show "set (edges (fst t'))
           \<subseteq> set (edges (fst st)) \<union> {(internet_node_name, r ''name'') | r. r \<in> set rs}"
    using expose_step_edges_upper [of loads cols x t t'] by blast
qed

lemma str_or_absent_cases:
  assumes "str_or_absent x"
  obtains "x = None" | s where "x = Some (JStr s)"
  using assms by (cases x rule: str_or_absent.cases) auto

lemma rule_open_wf:
  assumes "wf_entry rule"
  shows "rule_open rule = Inr (entry_open rule)"
proof (cases rule)
  case (JDict d)
  show ?thesis
  proof (cases "map_of d ''properties''")
    case None
    with JDict show ?thesis
      by (simp add: rule_open_def entry_open_def)
  next
    case (Some props)
    with assms JDict obtain p where p: "props = JDict p"
      and dir: "str_or_absent (map_of p ''direction'')"
      and acc: "str_or_absent (map_of p ''access'')"
      and src: "str_or_absent (map_of p ''sourceAddressPrefix'')"
      by (cases props) (auto simp: wf_entry_def)
    from dir acc src show ?thesis
      by (elim str_or_absent_cases)
         (simp_all add: JDict Some p rule_open_def entry_open_def internet_sources_def)
  qed
qed (use assms in \<open>simp_all add: wf_entry_def\<close>)

lemma scan_rules_wf:
  assumes "\<forall>rule\<in>set rules. wf_entry rule"
  shows "scan_rules rules = Inr (\<exists>rule\<in>set rules. entry_open rule)"
  using assms by (induction rules) (simp_all add: rule_open_wf)

lemma is_exposed_nsg:
  assumes "json_path properties [''securityRules''] = Some (JList rules)"
    and "\<forall>rule\<in>set rules. wf_entry rule"
  shows "is_exposed ''microsoft.network/networksecuritygroups'' properties
           = Inr (\<exists>rule\<in>set rules. entry_open rule)"
proof (cases properties)
  case (JDict d)
  with assms(1) have "map_of d ''securityRules'' = Some (JList rules)"
    by (simp split: option.splits)
  with JDict show ?thesis
    by (simp add: is_exposed_def scan_rules_wf [OF assms(2)])
qed (use assms(1) in simp_all)

lemma expose_step_nsg:
  assumes "lower (row_get cols r ''type'' '''') = ''microsoft.network/networksecuritygroups''"
    and "loads (row_get cols r ''properties'' ''{}'') = Inr properties"
    and "json_path properties [''securityRules''] = Some (JList rules)"
    and "\<forall>rule\<in>set rules. wf_entry rule"
  shows "expose_step loads cols r st
           = Inr (if \<exists>rule\<in>set rules. entry_open rule then mark_exposed st (r ''name'') else st)"
  using assms(1,2) is_exposed_nsg [OF assms(3,4)]
  by (simp add: expose_step_def try_body_def)

lemma py_get_dict:
  assumes "py_get v key dflt = Inr x"
  obtains d where "v = JDict d" and "x = (case map_of d key of Some y \<Rightarrow> y | None \<Rightarrow> dflt)"
  using assms by (cases v) auto

lemma py_lower_str:
  assumes "py_lower v = Inr s"
  obtains t where "v = JStr t" and "s = lower t"
  using assms by (cases v) auto

lemma lowered_member:
  assumes "py_get (JDict p) key (JStr '''') = Inr x" and "py_lower x = Inr s" and "s \<noteq> ''''"
  shows "lowered (map_of p key) = Some s"
proof -
  from assms(2) obtain t where x: "x = JStr t" and s: "s = lower t"
    by (rule py_lower_str)
  show ?thesis
  proof (cases "map_of p key")
    case None
    with assms(1) x s assms(3) show ?thesis by simp
  next
    case (Some y)
    with assms(1) x s show ?thesis by simp
  qed
qed

lemma json_path_last: "(case m of None \<Rightarrow> None | Some w \<Rightarrow> json_path w []) = m"
  by (cases m) simp_all

lemma rule_open_True:
  assumes "rule_open rule = Inr True"
  shows "entry_open rule"
proof -
  from assms obtain rule_props d dl a al s sl
    where g0: "py_get rule ''properties'' (JDict []) = Inr rule_props"
      and g1: "py_get rule_props ''direction'' (JStr '''') = Inr d"
      and l1: "py_lower d = Inr dl" and dl: "dl = ''inbound''"
      and g2: "py_get rule_props ''access'' (JStr '''') = Inr a"
      and l2: "py_lower a = Inr al" and al: "al = ''allow''"
      and g3: "py_get rule_props ''sourceAddressPrefix'' (JStr '''') = Inr s"
      and l3: "py_lower s = Inr sl" and sl: "sl \<in> internet_sources"
    unfolding rule_open_def by (auto split: sum.splits if_splits)
  from g0 obtain ro where ro: "rule = JDict ro"
    and rp: "rule_props = (case map_of ro ''properties'' of Some y \<Rightarrow> y | None \<Rightarrow> JDict [])"
    by (rule py_get_dict)
  from g1 obtain p where p: "rule_props = JDict p"
    by (rule py_get_dict)
  have d1: "lowered (map_of p ''direction'') = Some ''inbound''"
    using lowered_member [OF g1 [unfolded p] l1] dl by simp
  have d2: "lowered (map_of p ''access'') = Some ''allow''"
    using lowered_member [OF g2 [unfolded p] l2] al by simp
  have "sl \<noteq> ''''" using sl by (auto simp: internet_sources_def)
  then have d3: "lowered (map_of p ''sourceAddressPrefix'') = Some sl"
    using lowered_member [OF g3 [unfolded p] l3] by simp
  have "map_of ro ''properties'' = Some (JDict p)"
  proof (cases "map_of ro ''properties''")
    case None
    with rp p have "p = []" by simp
    with d1 show ?thesis by simp
  next
    case (Some y)
    with rp p show ?thesis by simp
  qed
  with ro d1 d2 d3 sl show ?thesis
    by (simp add: entry_open_def json_path_last)
qed

lemma rule_open_error: "rule_open rule = Inl e \<Longrightarrow> e = AttributeError"
  unfolding rule_open_def
  by (auto split: sum.splits if_splits dest: py_get_error py_lower_error)

lemma scan_rules_True:
  "scan_rules rules = Inr True \<Longrightarrow> \<exists>rule\<in>set rules. entry_open rule"
  by (induction rules) (auto split: sum.splits if_splits dest: rule_open_True)

lemma scan_rules_error: "scan_rules rules = Inl e \<Longrightarrow> e = AttributeError"
  by (induction rules) (auto split: sum.splits if_splits dest: rule_open_error)

lemma expose_step_nsg_closed:
  assumes "lower (row_get cols r ''type'' '''') = ''microsoft.network/networksecuritygroups''"
    and "loads (row_get cols r ''properties'' ''{}'') = Inr properties"
    and "json_path properties [''securityRules''] = Some (JList rules)"
    and "\<forall>rule\<in>set rules. \<not> entry_open rule"
  shows "expose_step loads cols r st = Inr st"
proof -
  from assms(3) obtain d where d: "properties = JDict d"
    and m: "map_of d ''securityRules'' = Some (JList rules)"
    by (cases properties) (auto split: option.splits)
  then have e: "is_exposed ''microsoft.network/networksecuritygroups'' properties = scan_rules rules"
    by (simp add: is_exposed_def)
  show ?thesis
  proof (cases "scan_rules rules")
    case (Inl err)
    then have "err = AttributeError" by (rule scan_rules_error)
    with Inl e assms(1,2) show ?thesis by (simp add: expose_step_def try_body_def)
  next
    case (Inr b)
    with assms(4) scan_rules_True [of rules] have "\<not> b" by auto
    with Inr e assms(1,2) show ?thesis by (simp add: expose_step_def try_body_def)
  qed
qed

text \<open>
  C1.  For a row whose \<^verbatim>\<open>type\<close> lowercases to the network security group type and whose
  \<^verbatim>\<open>properties\<close> decode to an object whose \<^verbatim>\<open>securityRules\<close> is a list: an entry is open
  when the object under its \<^verbatim>\<open>properties\<close> member has \<^verbatim>\<open>direction\<close> \<^verbatim>\<open>"inbound"\<close>, \<^verbatim>\<open>access\<close>
  \<^verbatim>\<open>"allow"\<close> and a \<^verbatim>\<open>sourceAddressPrefix\<close> among \<^verbatim>\<open>"*"\<close>, \<^verbatim>\<open>"internet"\<close>, \<^verbatim>\<open>"0.0.0.0/0"\<close> (in
  lowercase).  When no entry is open, the row's turn of the exposure loop leaves the graph
  as it was.  When every entry is well-formed, the turn adds the edge from the Internet
  node to the row's name exactly when some entry is open, and an edge so added is in the
  graph the build returns.
\<close>

theorem nsg_exposure:
  assumes "lower (row_get cols r ''type'' '''') = ''microsoft.network/networksecuritygroups''"
    and "loads (row_get cols r ''properties'' ''{}'') = Inr properties"
    and "json_path properties [''securityRules''] = Some (JList rules)"
  shows "((\<forall>rule\<in>set rules. \<not> entry_open rule) \<longrightarrow> expose_step loads cols r st = Inr st)
       \<and> ((\<forall>rule\<in>set rules. wf_entry rule) \<longrightarrow>
            expose_step loads cols r st
              = Inr (if \<exists>rule\<in>set rules. entry_open rule then mark_exposed st (r ''name'')
                     else st))
       \<and> set (edges (fst (mark_exposed st (r ''name''))))
           = insert (internet_node_name, r ''name'') (set (edges (fst st)))
       \<and> ((\<forall>rule\<in>set rules. wf_entry rule) \<and> (\<exists>rule\<in>set rules. entry_open rule)
            \<and> cols = columns df \<and> r \<in> set (rows df)
            \<and> build_graph_from_csv loads df = Inr G
          \<longrightarrow> (internet_node_name, r ''name'') \<in> set (edges G))"
proof (intro conjI impI)
  assume "\<forall>rule\<in>set rules. \<not> entry_open rule"
  with assms show "expose_step loads cols r st = Inr st"
    by (rule expose_step_nsg_closed)
next
  assume "\<forall>rule\<in>set rules. wf_entry rule"
  with assms show "expose_step loads cols r st
      = Inr (if \<exists>rule\<in>set rules. entry_open rule then mark_exposed st (r ''name'') else st)"
    by (rule expose_step_nsg)
next
  show "set (edges (fst (mark_exposed st (r ''name''))))
           = insert (internet_node_name, r ''name'') (set (edges (fst st)))"
    by (rule mark_exposed_edges)
next
  assume a: "(\<forall>rule\<in>set rules. wf_entry rule) \<and> (\<exists>rule\<in>set rules. entry_open rule)
            \<and> cols = columns df \<and> r \<in> set (rows df)
            \<and> build_graph_from_csv loads df = Inr G"
  then obtain G2 flag where
    loop: "for_each (expose_step loads (columns df)) (rows df) (G2, False) = Inr (G, flag)"
    by (auto elim: build_Inr)
  have "\<And>t. expose_step loads (columns df) r t = Inr (mark_exposed t (r ''name''))"
    using assms a by (simp add: expose_step_nsg)
  from expose_loop_member [OF loop _ this] a
  show "(internet_node_name, r ''name'') \<in> set (edges G)" by simp
qed

theorem nsg_exposure_witness:
  \<open>expose_step
     (decoder_of [(''{"securityRules": [{"properties": {"direction": "Inbound", "access": "Allow", "sourceAddressPrefix": "*"}}]}'',
               JDict [(''securityRules'',
                       JList [JDict [(''properties'',
                          JDict [(''direction'', JStr ''Inbound''), (''access'', JStr ''Allow''),
                                 (''sourceAddressPrefix'', JStr ''*'')])]])])])
     [''id'', ''name'', ''type'', ''properties'']
     (mk_row [(''id'', ''/s/1''), (''name'', ''nsg1''),
              (''type'', ''Microsoft.Network/networkSecurityGroups''),
              (''properties'', ''{"securityRules": [{"properties": {"direction": "Inbound", "access": "Allow", "sourceAddressPrefix": "*"}}]}'')])
     (empty_graph, False)
   = Inr (mark_exposed (empty_graph, False) ''nsg1'')
   \<and> expose_step
     (decoder_of [(''{"securityRules": [{"properties": {"direction": "Inbound", "access": "Allow", "sourceAddressPrefix": "10.0.0.0/8"}}]}'',
               JDict [(''securityRules'',
                       JList [JDict [(''properties'',
                          JDict [(''direction'', JStr ''Inbound''), (''access'', JStr ''Allow''),
                                 (''sourceAddressPrefix'', JStr ''10.0.0.0/8'')])]])])])
     [''id'', ''name'', ''type'', ''properties'']
     (mk_row [(''id'', ''/s/1''), (''name'', ''nsg1''),
              (''type'', ''Microsoft.Network/networkSecurityGroups''),
              (''properties'', ''{"securityRules": [{"properties": {"direction": "Inbound", "access": "Allow", "sourceAddressPrefix": "10.0.0.0/8"}}]}'')])
     (empty_graph, False)
   = Inr (empty_graph, False)\<close>
proof -
  have low: "lower ''Microsoft.Network/networkSecurityGroups'' = ''microsoft.network/networksecuritygroups''"
    "lower ''Inbound'' = ''inbound''" "lower ''Allow'' = ''allow''" "lower ''*'' = ''*''"
    "lower ''10.0.0.0/8'' = ''10.0.0.0/8''"
    by code_simp+
  show ?thesis
    using nsg_exposure
      [of \<open>[''id'', ''name'', ''type'', ''properties'']\<close>
          \<open>mk_row [(''id'', ''/s/1''), (''name'', ''nsg1''),
              (''type'', ''Microsoft.Network/networkSecurityGroups''),
              (''properties'', ''{"securityRules": [{"properties": {"direction": "Inbound", "access": "Allow", "sourceAddressPrefix": "*"}}]}'')]\<close>
          \<open>decoder_of [(''{"securityRules": [{"properties": {"direction": "Inbound", "access": "Allow", "sourceAddressPrefix": "*"}}]}'',
               JDict [(''securityRules'',
                       JList [JDict [(''properties'',
                          JDict [(''direction'', JStr ''Inbound''), (''access'', JStr ''Allow''),
                                 (''sourceAddressPrefix'', JStr ''*'')])]])])]\<close>
          \<open>JDict [(''securityRules'',
                       JList [JDict [(''properties'',
                          JDict [(''direction'', JStr ''Inbound''), (''access'', JStr ''Allow''),
                                 (''sourceAddressPrefix'', JStr ''*'')])]])]\<close>
          \<open>[JDict [(''properties'',
                          JDict [(''direction'', JStr ''Inbound''), (''access'', JStr ''Allow''),
                                 (''sourceAddressPrefix'', JStr ''*'')])]]\<close>
          \<open>(empty_graph, False)\<close>]
      nsg_exposure
      [of \<open>[''id'', ''name'', ''type'', ''properties'']\<close>
          \<open>mk_row [(''id'', ''/s/1''), (''name'', ''nsg1''),
              (''type'', ''Microsoft.Network/networkSecurityGroups''),
              (''properties'', ''{"securityRules": [{"properties": {"direction": "Inbound", "access": "Allow", "sourceAddressPrefix": "10.0.0.0/8"}}]}'')]\<close>
          \<open>decoder_of [(''{"securityRules": [{"properties": {"direction": "Inbound", "access": "Allow", "sourceAddressPrefix": "10.0.0.0/8"}}]}'',
               JDict [(''securityRules'',
                       JList [JDict [(''properties'',
                          JDict [(''direction'', JStr ''Inbound''), (''access'', JStr ''Allow''),
                                 (''sourceAddressPrefix'', JStr ''10.0.0.0/8'')])]])])]\<close>
          \<open>JDict [(''securityRules'',
                       JList [JDict [(''properties'',
                          JDict [(''direction'', JStr ''Inbound''), (''access'', JStr ''Allow''),
                                 (''sourceAddressPrefix'', JStr ''10.0.0.0/8'')])]])]\<close>
          \<open>[JDict [(''properties'',
                          JDict [(''direction'', JStr ''Inbound''), (''access'', JStr ''Allow''),
                                 (''sourceAddressPrefix'', JStr ''10.0.0.0/8'')])]]\<close>
          \<open>(empty_graph, False)\<close>]
    by (simp add: row_get_def mk_row_def decoder_of_def entry_open_def wf_entry_def internet_sources_def low)
qed

text \<open>
  The entry \<^verbatim>\<open>{direction: "Inbound", access: "Allow", sourceAddressPrefix: "*"}\<close> carries the
  three members itself and has no \<^verbatim>\<open>properties\<close> member: line 110 reads an empty object
  and the build adds no edge.
\<close>

theorem nsg_flat_rule_counterexample:
  \<open>build_graph_from_csv
     (decoder_of [(''{"securityRules": [{"direction": "Inbound", "access": "Allow", "sourceAddressPrefix": "*"}]}'',
               JDict [(''securityRules'',
                       JList [JDict [(''direction'', JStr ''Inbound''), (''access'', JStr ''Allow''),
                                     (''sourceAddressPrefix'', JStr ''*'')]])])])
     \<lparr>columns = [''id'', ''name'', ''type'', ''properties''],
      rows = [mk_row [(''id'', ''/s/1''), (''name'', ''nsg1''),
                      (''type'', ''Microsoft.Network/networkSecurityGroups''),
                      (''properties'', ''{"securityRules": [{"direction": "Inbound", "access": "Allow", "sourceAddressPrefix": "*"}]}'')]]\<rparr>
   = Inr \<lparr>nodes = [(''nsg1'',
                      [(''id'', AStr ''/s/1''), (''name'', AStr ''nsg1''),
                       (''type'', AStr ''Microsoft.Network/networkSecurityGroups''),
                       (''properties'', AStr ''{"securityRules": [{"direction": "Inbound", "access": "Allow", "sourceAddressPrefix": "*"}]}'')])],
           edges = []\<rparr>
   \<and> flat_entry_open (JDict [(''direction'', JStr ''Inbound''), (''access'', JStr ''Allow''),
                             (''sourceAddressPrefix'', JStr ''*'')])\<close>
  by (rule conjI; code_simp)

text \<open>
  C5.  A row whose \<^verbatim>\<open>properties\<close> are a thousand opening brackets: the text is not JSON, and
  \<^verbatim>\<open>json.loads\<close> gives up on it with \<^verbatim>\<open>RecursionError\<close>, which is no \<^verbatim>\<open>JSONDecodeError\<close>.  The
  \<^verbatim>\<open>except\<close> clause of line 123 does not catch it, so the build returns no graph.
\<close>

theorem undecodable_properties_abort_build:
  \<open>build_graph_from_csv
     (\<lambda>s. if s = replicate 1000 CHR ''['' then Inl RecursionError else decoder_of [] s)
     \<lparr>columns = [''id'', ''name'', ''properties''],
      rows = [mk_row [(''id'', ''/s/1''), (''name'', ''vm''),
                      (''properties'', replicate 1000 CHR ''['')]]\<rparr>
   = Inl RecursionError\<close>
  by code_simp

theorem undecodable_properties_abort_build_witness:
  \<open>\<nexists>G. build_graph_from_csv
       (\<lambda>s. if s = replicate 1000 CHR ''['' then Inl RecursionError else decoder_of [] s)
       \<lparr>columns = [''id'', ''name'', ''properties''],
        rows = [mk_row [(''id'', ''/s/1''), (''name'', ''vm''),
                        (''properties'', replicate 1000 CHR ''['')]]\<rparr>
       = Inr G\<close>
  using undecodable_properties_abort_build by simp

text \<open>
  C3.  A storage account row with an empty name and \<^verbatim>\<open>defaultAction\<close> \<^verbatim>\<open>"Allow"\<close>: the
  exposure loop has no test of the name, and \<^verbatim>\<open>add_edge\<close> makes the empty string a node.
\<close>

theorem exposed_row_without_name_adds_node:
  \<open>build_graph_from_csv
     (decoder_of [(''{"networkAcls": {"defaultAction": "Allow"}}'',
               JDict [(''networkAcls'', JDict [(''defaultAction'', JStr ''Allow'')])])])
     \<lparr>columns = [''id'', ''name'', ''type'', ''properties''],
      rows = [mk_row [(''id'', ''/s/1''), (''type'', ''Microsoft.Storage/storageAccounts''),
                      (''properties'', ''{"networkAcls": {"defaultAction": "Allow"}}'')]]\<rparr>
   = Inr \<lparr>nodes = [(''Internet'', [(''type'', AStr ''Internet''), (''group'', AStr ''Internet''),
                                      (''size'', AInt 40)]),
                     ('''', [])],
           edges = [(''Internet'', '''')]\<rparr>\<close>
  by code_simp

theorem exposed_row_without_name_adds_node_witness:
  \<open>\<exists>G. build_graph_from_csv
       (decoder_of [(''{"networkAcls": {"defaultAction": "Allow"}}'',
                 JDict [(''networkAcls'', JDict [(''defaultAction'', JStr ''Allow'')])])])
       \<lparr>columns = [''id'', ''name'', ''type'', ''properties''],
        rows = [mk_row [(''id'', ''/s/1''), (''type'', ''Microsoft.Storage/storageAccounts''),
                        (''properties'', ''{"networkAcls": {"defaultAction": "Allow"}}'')]]\<rparr>
       = Inr G \<and> '''' \<in> fst ` set (nodes G)\<close>
  using exposed_row_without_name_adds_node by simp

text \<open>
  C6.  Both columns are present, and a network security group row has
  \<^verbatim>\<open>"securityRules": null\<close>: the \<^verbatim>\<open>for\<close> over the rules raises \<^verbatim>\<open>TypeError\<close>, which the
  \<^verbatim>\<open>except\<close> clause does not catch, so the build returns no graph.
\<close>

theorem null_security_rules_abort_build:
  \<open>build_graph_from_csv
     (decoder_of [(''{"securityRules": null}'', JDict [(''securityRules'', JNull)])])
     \<lparr>columns = [''id'', ''name'', ''type'', ''properties''],
      rows = [mk_row [(''id'', ''/s/1''), (''name'', ''nsg1''),
                      (''type'', ''Microsoft.Network/networkSecurityGroups''),
                      (''properties'', ''{"securityRules": null}'')]]\<rparr>
   = Inl TypeError\<close>
  by code_simp

theorem null_security_rules_abort_build_witness:
  \<open>\<nexists>G. build_graph_from_csv
       (decoder_of [(''{"securityRules": null}'', JDict [(''securityRules'', JNull)])])
       \<lparr>columns = [''id'', ''name'', ''type'', ''properties''],
        rows = [mk_row [(''id'', ''/s/1''), (''name'', ''nsg1''),
                        (''type'', ''Microsoft.Network/networkSecurityGroups''),
                        (''properties'', ''{"securityRules": null}'')]]\<rparr>
       = Inr G\<close>
  using null_security_rules_abort_build by simp

section \<open>The graph the build returns\<close>

lemma mark_exposed_internet_attr:
  "attr_of (fst (mark_exposed (H, f) n)) internet_node_name key =
     (if f then attr_of H internet_node_name key
      else (case map_of internet_attrs key of
              Some v \<Rightarrow> Some v
            | None \<Rightarrow> attr_of H internet_node_name key))"
proof -
  have "distinct (map fst internet_attrs)"
    by (simp add: internet_attrs_def)
  then have "map_of (rev internet_attrs) key = map_of internet_attrs key"
    by (rule map_of_rev_distinct)
  then show ?thesis
    by (simp add: mark_exposed_def Let_def attr_of_add_node)
qed

lemma mark_exposed_internet_key:
  "internet_node_name \<in> fst ` set (nodes (fst (mark_exposed st n)))"
  by (simp add: mark_exposed_def Let_def)

lemma expose_loop_internet:
  assumes "for_each (expose_step loads cols) rs (G2, False) = Inr (G, flag)"
  shows "if flag
         then internet_node_name \<in> fst ` set (nodes G)
              \<and> (\<forall>key. attr_of G internet_node_name key =
                    (case map_of internet_attrs key of
                       Some v \<Rightarrow> Some v
                     | None \<Rightarrow> attr_of G2 internet_node_name key))
         else G = G2"
proof -
  let ?P = "\<lambda>t. if snd t
         then internet_node_name \<in> fst ` set (nodes (fst t))
              \<and> (\<forall>key. attr_of (fst t) internet_node_name key =
                    (case map_of internet_attrs key of
                       Some v \<Rightarrow> Some v
                     | None \<Rightarrow> attr_of G2 internet_node_name key))
         else fst t = G2"
  have "?P (G, flag)"
  proof (rule for_each_invariant [OF assms, where P = ?P])
    show "?P (G2, False)" by simp
  next
    fix x t t'
    assume P: "?P t" and step: "expose_step loads cols x t = Inr t'"
    from expose_step_cases [OF step] show "?P t'"
    proof
      assume "t' = t"
      with P show ?thesis by simp
    next
      assume t': "t' = mark_exposed t (x ''name'')"
      obtain H f where t: "t = (H, f)" by (cases t)
      show ?thesis
      proof (cases f)
        case True
        with P t show ?thesis
          unfolding t' by (simp add: mark_exposed_internet_attr mark_exposed_internet_key)
      next
        case False
        with P t have "H = G2" by simp
        with False t show ?thesis
          unfolding t' by (simp add: mark_exposed_internet_attr mark_exposed_internet_key)
      qed
    qed
  qed
  then show ?thesis by (cases flag) simp_all
qed

lemma build_distinct:
  assumes "build_graph_from_csv loads df = Inr G"
  shows "distinct (map fst (nodes G))"
proof -
  from assms obtain G2 flag where G2: "reference_graph df = Inr G2"
    and loop: "for_each (expose_step loads (columns df)) (rows df) (G2, False) = Inr (G, flag)"
    by (rule build_Inr)
  from expose_loop_distinct [OF loop] reference_graph_distinct [OF G2] show ?thesis
    by simp
qed

text \<open>
  C7.  The graph the build returns has at most one node called \<^verbatim>\<open>Internet\<close>, however many
  rows are exposed.  When no row is exposed, the graph is the reference graph unchanged.
  When some row is exposed, the node \<^verbatim>\<open>Internet\<close> is there, its attributes are
  \<^verbatim>\<open>type="Internet"\<close>, \<^verbatim>\<open>group="Internet"\<close>, \<^verbatim>\<open>size=40\<close>, written once over whatever the
  reference graph had for that node, and every exposed row has its edge from that node.
\<close>

theorem single_internet_node:
  assumes "build_graph_from_csv loads df = Inr G"
  shows "length (filter (\<lambda>p. fst p = internet_node_name) (nodes G)) \<le> 1
       \<and> (\<exists>G2. reference_graph df = Inr G2
            \<and> (if \<exists>r\<in>set (rows df). row_exposed loads (columns df) r
                then internet_node_name \<in> fst ` set (nodes G)
                     \<and> (\<forall>key. attr_of G internet_node_name key =
                           (case map_of internet_attrs key of
                              Some v \<Rightarrow> Some v
                            | None \<Rightarrow> attr_of G2 internet_node_name key))
                     \<and> (\<forall>r\<in>set (rows df). row_exposed loads (columns df) r \<longrightarrow>
                           (internet_node_name, r ''name'') \<in> set (edges G))
                else G = G2))"
proof -
  from assms obtain G2 flag where G2: "reference_graph df = Inr G2"
    and loop: "for_each (expose_step loads (columns df)) (rows df) (G2, False) = Inr (G, flag)"
    by (rule build_Inr)
  have one: "length (filter (\<lambda>p. fst p = internet_node_name) (nodes G)) \<le> 1"
    by (simp add: count_key_distinct [OF build_distinct [OF assms]])
  have flag: "flag = (\<exists>r\<in>set (rows df). row_exposed loads (columns df) r)"
    using expose_loop_flag [OF loop] by simp
  have edges: "\<forall>r\<in>set (rows df). row_exposed loads (columns df) r \<longrightarrow>
                           (internet_node_name, r ''name'') \<in> set (edges G)"
    using expose_loop_edges_exact [OF loop] by auto
  from expose_loop_internet [OF loop] flag edges
  have "if \<exists>r\<in>set (rows df). row_exposed loads (columns df) r
                then internet_node_name \<in> fst ` set (nodes G)
                     \<and> (\<forall>key. attr_of G internet_node_name key =
                           (case map_of internet_attrs key of
                              Some v \<Rightarrow> Some v
                            | None \<Rightarrow> attr_of G2 internet_node_name key))
                     \<and> (\<forall>r\<in>set (rows df). row_exposed loads (columns df) r \<longrightarrow>
                           (internet_node_name, r ''name'') \<in> set (edges G))
                else G = G2"
    by (cases flag) simp_all
  with one G2 show ?thesis by blast
qed

theorem single_internet_node_witness:
  \<open>\<exists>G. build_graph_from_csv
       (decoder_of [(''{"networkAcls": {"defaultAction": "Allow"}}'',
                     JDict [(''networkAcls'', JDict [(''defaultAction'', JStr ''Allow'')])])])
       \<lparr>columns = [''id'', ''name'', ''type'', ''properties''],
        rows = [mk_row [(''id'', ''/s/1''), (''name'', ''store1''),
                        (''type'', ''Microsoft.Storage/storageAccounts''),
                        (''properties'', ''{"networkAcls": {"defaultAction": "Allow"}}'')],
                mk_row [(''id'', ''/s/2''), (''name'', ''store2''),
                        (''type'', ''Microsoft.Storage/storageAccounts''),
                        (''properties'', ''{"networkAcls": {"defaultAction": "Allow"}}'')]]\<rparr>
       = Inr G
     \<and> length (filter (\<lambda>p. fst p = internet_node_name) (nodes G)) \<le> 1
     \<and> internet_node_name \<in> fst ` set (nodes G)
     \<and> attr_of G internet_node_name ''type'' = Some (AStr ''Internet'')
     \<and> attr_of G internet_node_name ''group'' = Some (AStr ''Internet'')
     \<and> attr_of G internet_node_name ''size'' = Some (AInt 40)
     \<and> (internet_node_name, ''store1'') \<in> set (edges G)
     \<and> (internet_node_name, ''store2'') \<in> set (edges G)\<close>
proof -
  let ?L = \<open>decoder_of [(''{"networkAcls": {"defaultAction": "Allow"}}'',
                 JDict [(''networkAcls'', JDict [(''defaultAction'', JStr ''Allow'')])])]\<close>
  let ?r1 = \<open>mk_row [(''id'', ''/s/1''), (''name'', ''store1''),
                        (''type'', ''Microsoft.Storage/storageAccounts''),
                        (''properties'', ''{"networkAcls": {"defaultAction": "Allow"}}'')]\<close>
  let ?r2 = \<open>mk_row [(''id'', ''/s/2''), (''name'', ''store2''),
                        (''type'', ''Microsoft.Storage/storageAccounts''),
                        (''properties'', ''{"networkAcls": {"defaultAction": "Allow"}}'')]\<close>
  let ?cols = \<open>[''id'', ''name'', ''type'', ''properties'']\<close>
  let ?D = \<open>\<lparr>columns = ?cols, rows = [?r1, ?r2]\<rparr>\<close>
  have "case build_graph_from_csv ?L ?D of Inl e \<Rightarrow> False | Inr G \<Rightarrow> True"
    by code_simp
  then obtain G where e: "build_graph_from_csv ?L ?D = Inr G"
    by (auto split: sum.splits)
  have x1: "row_exposed ?L ?cols ?r1" and x2: "row_exposed ?L ?cols ?r2"
    by code_simp+
  have n: "?r1 ''name'' = ''store1''" "?r2 ''name'' = ''store2''"
    by (simp_all add: mk_row_def)
  from single_internet_node [OF e] x1 x2 n show ?thesis
    using e by (auto simp: internet_attrs_def)
qed

text \<open>
  C2.  For every row with a non-empty name other than \<^verbatim>\<open>Internet\<close>, the graph the build
  returns has exactly one node of that name, and its attribute of each column is the cell
  of the last row of that name whose cell in that column is not empty (later rows are
  merged over earlier ones, and an empty cell overwrites nothing); when a single row bears
  the name, the attributes are exactly that row's non-empty cells.
\<close>

theorem node_attributes_merged:
  assumes "build_graph_from_csv loads df = Inr G"
    and "r \<in> set (rows df)" and "r ''name'' \<noteq> ''''" and "r ''name'' \<noteq> internet_node_name"
  shows "length (filter (\<lambda>p. fst p = r ''name'') (nodes G)) = 1
       \<and> (\<exists>a. map_of (nodes G) (r ''name'') = Some a
             \<and> (\<forall>key. map_of a key = merged_attr (columns df) (rows df) (r ''name'') key)
             \<and> (filter (\<lambda>r'. r' ''name'' = r ''name'') (rows df) = [r] \<longrightarrow>
                  (\<forall>key. map_of a key =
                     (if key \<in> set (columns df) \<and> r key \<noteq> '''' then Some (AStr (r key)) else None))))"
proof -
  from assms(1) obtain G2 flag where G2: "reference_graph df = Inr G2"
    and loop: "for_each (expose_step loads (columns df)) (rows df) (G2, False) = Inr (G, flag)"
    by (rule build_Inr)
  have "r ''name'' \<in> fst ` set (nodes G2)"
    by (rule reference_graph_keys [OF G2 assms(2,3)])
  with expose_loop_keys [OF loop] have key: "r ''name'' \<in> fst ` set (nodes G)"
    by auto
  then have one: "length (filter (\<lambda>p. fst p = r ''name'') (nodes G)) = 1"
    by (simp add: count_key_distinct [OF build_distinct [OF assms(1)]])
  from key obtain a where a: "map_of (nodes G) (r ''name'') = Some a"
    by (auto dest: weak_map_of_SomeI)
  have attr: "map_of a key = merged_attr (columns df) (rows df) (r ''name'') key" for key
  proof -
    have "attr_of G (r ''name'') key = attr_of G2 (r ''name'') key"
      using expose_loop_attr [OF loop assms(4)] by simp
    also have "\<dots> = merged_attr (columns df) (rows df) (r ''name'') key"
      by (rule reference_graph_attr [OF G2 assms(3)])
    finally show ?thesis by (simp add: attr_of_def a)
  qed
  have only: "map_of a key =
      (if key \<in> set (columns df) \<and> r key \<noteq> '''' then Some (AStr (r key)) else None)"
    if "filter (\<lambda>r'. r' ''name'' = r ''name'') (rows df) = [r]" for key
  proof -
    have "filter (\<lambda>r'. r' ''name'' = r ''name'' \<and> r' key \<noteq> '''') (rows df)
            = filter (\<lambda>r'. r' key \<noteq> '''') (filter (\<lambda>r'. r' ''name'' = r ''name'') (rows df))"
      by (simp add: conj_commute)
    also have "\<dots> = filter (\<lambda>r'. r' key \<noteq> '''') [r]"
      by (simp only: that)
    finally show ?thesis
      by (simp add: attr merged_attr_def)
  qed
  from one a attr only show ?thesis by blast
qed

theorem node_attributes_merged_witness:
  \<open>\<exists>G a. build_graph_from_csv (decoder_of [(''{}'', JDict [])])
           \<lparr>columns = [''id'', ''name'', ''tags''],
            rows = [mk_row [(''id'', ''/s/1''), (''name'', ''vm''), (''tags'', ''prod'')],
                    mk_row [(''id'', ''/s/2''), (''name'', ''vm'')]]\<rparr>
         = Inr G
       \<and> map_of (nodes G) ''vm'' = Some a
       \<and> map_of a ''id'' = Some (AStr ''/s/2'')
       \<and> map_of a ''tags'' = Some (AStr ''prod'')\<close>
proof -
  let ?r1 = \<open>mk_row [(''id'', ''/s/1''), (''name'', ''vm''), (''tags'', ''prod'')]\<close>
  let ?r2 = \<open>mk_row [(''id'', ''/s/2''), (''name'', ''vm'')]\<close>
  let ?D = \<open>\<lparr>columns = [''id'', ''name'', ''tags''], rows = [?r1, ?r2]\<rparr>\<close>
  have "case build_graph_from_csv (decoder_of [(''{}'', JDict [])]) ?D of
          Inl e \<Rightarrow> False | Inr G \<Rightarrow> True"
    by code_simp
  then obtain G where e: "build_graph_from_csv (decoder_of [(''{}'', JDict [])]) ?D = Inr G"
    by (auto split: sum.splits)
  have name: "?r2 ''name'' = ''vm''"
    by (simp add: mk_row_def)
  have "?r2 \<in> set (rows ?D)" and "?r2 ''name'' \<noteq> ''''" and "?r2 ''name'' \<noteq> internet_node_name"
    by (simp_all add: name internet_node_name_def)
  from node_attributes_merged [OF e this]
  obtain a where a: "map_of (nodes G) ''vm'' = Some a"
    and m: "\<And>key. map_of a key = merged_attr (columns ?D) (rows ?D) ''vm'' key"
    unfolding name by blast
  have "merged_attr (columns ?D) (rows ?D) ''vm'' ''id'' = Some (AStr ''/s/2'')"
    and "merged_attr (columns ?D) (rows ?D) ''vm'' ''tags'' = Some (AStr ''prod'')"
    by (simp_all add: merged_attr_def mk_row_def)
  with e a m show ?thesis by auto
qed

text \<open>
  Two rows called \<^verbatim>\<open>vm\<close>: the first has tags, the last has none.  The node keeps the
  first row's \<^verbatim>\<open>tags\<close>, which is not among the non-empty cells of the last row.
\<close>

theorem node_attributes_counterexample:
  \<open>build_graph_from_csv (decoder_of [(''{}'', JDict [])])
     \<lparr>columns = [''id'', ''name'', ''tags''],
      rows = [mk_row [(''id'', ''/s/1''), (''name'', ''vm''), (''tags'', ''prod'')],
              mk_row [(''id'', ''/s/2''), (''name'', ''vm'')]]\<rparr>
   = Inr \<lparr>nodes = [(''vm'', [(''id'', AStr ''/s/2''), (''name'', AStr ''vm''),
                              (''tags'', AStr ''prod'')])],
           edges = []\<rparr>
   \<and> row_attrs [''id'', ''name'', ''tags''] (mk_row [(''id'', ''/s/2''), (''name'', ''vm'')])
       = [(''id'', AStr ''/s/2''), (''name'', AStr ''vm'')]\<close>
  by (rule conjI; code_simp)

lemma build_edges_lower:
  assumes "build_graph_from_csv loads df = Inr G" and "reference_graph df = Inr G2"
  shows "set (edges G2) \<subseteq> set (edges G)"
proof -
  from assms obtain flag where
    "for_each (expose_step loads (columns df)) (rows df) (G2, False) = Inr (G, flag)"
    by (auto elim: build_Inr)
  from expose_loop_edges_mono [OF this] show ?thesis by simp
qed

lemma build_edges_upper:
  assumes "build_graph_from_csv loads df = Inr G" and "reference_graph df = Inr G2"
    and "(u, v) \<in> set (edges G)" and "u \<noteq> internet_node_name"
  shows "(u, v) \<in> set (edges G2)"
proof -
  from assms(1,2) obtain flag where
    "for_each (expose_step loads (columns df)) (rows df) (G2, False) = Inr (G, flag)"
    by (auto elim: build_Inr)
  from expose_loop_edges [OF this] assms(3,4) show ?thesis by auto
qed

text \<open>
  C10.  Rows A and B with distinct non-empty ids and distinct non-empty names, in an input
  on which the build returns a graph.  If the header has a \<^verbatim>\<open>properties\<close> column, A's
  \<^verbatim>\<open>properties\<close> contain B's id and every row that declares B's id is called like B, the
  graph has the edge from A's name to B's name.  If B's name is not \<^verbatim>\<open>Internet\<close> and every
  row called like A declares A's id, the graph has the edge from B's name to A's name only
  if the haystack of some row called like B (its searched fields joined by single spaces)
  contains A's id.
\<close>

theorem reference_edge_direction:
  assumes "build_graph_from_csv loads df = Inr G"
    and "rA \<in> set (rows df)" and "rB \<in> set (rows df)"
    and "rA ''id'' \<noteq> ''''" and "rB ''id'' \<noteq> ''''" and "rA ''id'' \<noteq> rB ''id''"
    and "rA ''name'' \<noteq> ''''" and "rB ''name'' \<noteq> ''''" and "rA ''name'' \<noteq> rB ''name''"
  shows "(''properties'' \<in> set (columns df) \<and> str_in (rB ''id'') (rA ''properties'')
            \<and> (\<forall>r\<in>set (rows df). r ''id'' = rB ''id'' \<longrightarrow> r ''name'' = rB ''name'')
          \<longrightarrow> (rA ''name'', rB ''name'') \<in> set (edges G))
       \<and> ((rB ''name'', rA ''name'') \<in> set (edges G) \<and> rB ''name'' \<noteq> internet_node_name
            \<and> (\<forall>r\<in>set (rows df). r ''name'' = rA ''name'' \<longrightarrow> r ''id'' = rA ''id'')
          \<longrightarrow> (\<exists>r\<in>set (rows df). r ''name'' = rB ''name''
                 \<and> str_in (rA ''id'') (haystack (search_columns (columns df)) r)))"
proof (intro conjI impI)
  let ?idx = "id_to_name (rows df)"
  let ?sc = "search_columns (columns df)"
  from assms(1) obtain G2 where G2: "reference_graph df = Inr G2"
    by (auto elim: build_Inr)
  {
    assume a: "''properties'' \<in> set (columns df) \<and> str_in (rB ''id'') (rA ''properties'')
            \<and> (\<forall>r\<in>set (rows df). r ''id'' = rB ''id'' \<longrightarrow> r ''name'' = rB ''name'')"
    have cand: "rB ''id'' \<in> set (map fst ?idx)"
      unfolding id_to_name_keys using assms(3,5) by auto
    have hay: "str_in (rB ''id'') (haystack ?sc rA)"
      using a by (auto intro: str_in_haystack properties_searched)
    have ex: "\<exists>r\<in>set (rows df). r ''id'' = rB ''id''"
      using assms(3) by auto
    then have "filter (\<lambda>r. r ''id'' = rB ''id'') (rows df) \<noteq> []"
      by (auto simp: filter_empty_conv)
    then have "last (filter (\<lambda>r. r ''id'' = rB ''id'') (rows df))
                 \<in> set (filter (\<lambda>r. r ''id'' = rB ''id'') (rows df))"
      by (rule last_in_set)
    with a have "last (filter (\<lambda>r. r ''id'' = rB ''id'') (rows df)) ''name'' = rB ''name''"
      by auto
    with ex assms(5) have res: "map_of ?idx (rB ''id'') = Some (rB ''name'')"
      by (simp add: id_to_name_lookup)
    have "refers ?idx (map fst ?idx) ?sc rA (rB ''name'')"
      unfolding refers_def using assms(6,7,8) cand hay res by metis
    with assms(2) have "(rA ''name'', rB ''name'') \<in> set (edges G2)"
      unfolding reference_graph_edges [OF G2] by blast
    with build_edges_lower [OF assms(1) G2]
    show "(rA ''name'', rB ''name'') \<in> set (edges G)" by blast
  }
  {
    assume b: "(rB ''name'', rA ''name'') \<in> set (edges G) \<and> rB ''name'' \<noteq> internet_node_name
            \<and> (\<forall>r\<in>set (rows df). r ''name'' = rA ''name'' \<longrightarrow> r ''id'' = rA ''id'')"
    then have "(rB ''name'', rA ''name'') \<in> set (edges G2)"
      using build_edges_upper [OF assms(1) G2] by blast
    then obtain r where r: "r \<in> set (rows df)" and n: "r ''name'' = rB ''name''"
      and ref: "refers ?idx (map fst ?idx) ?sc r (rA ''name'')"
      unfolding reference_graph_edges [OF G2] by auto
    then obtain cid where hay: "str_in cid (haystack ?sc r)"
      and res: "map_of ?idx cid = Some (rA ''name'')"
      by (auto simp: refers_def)
    from res obtain r' where "r' \<in> set (rows df)" "r' ''id'' = cid" "r' ''name'' = rA ''name''"
      by (rule id_to_name_resolves)
    with b have "cid = rA ''id''" by auto
    with r n hay show "\<exists>r\<in>set (rows df). r ''name'' = rB ''name''
                 \<and> str_in (rA ''id'') (haystack (search_columns (columns df)) r)"
      by blast
  }
qed

theorem reference_edge_direction_witness:
  \<open>\<exists>G. build_graph_from_csv (decoder_of [(''{}'', JDict [])])
     \<lparr>columns = [''id'', ''name'', ''properties''],
      rows = [mk_row [(''id'', ''/s/a''), (''name'', ''A''), (''properties'', ''uses /s/b'')],
              mk_row [(''id'', ''/s/b''), (''name'', ''B'')]]\<rparr> = Inr G
     \<and> (''A'', ''B'') \<in> set (edges G) \<and> (''B'', ''A'') \<notin> set (edges G)\<close>
proof -
  let ?rA = \<open>mk_row [(''id'', ''/s/a''), (''name'', ''A''), (''properties'', ''uses /s/b'')]\<close>
  let ?rB = \<open>mk_row [(''id'', ''/s/b''), (''name'', ''B'')]\<close>
  let ?D = \<open>\<lparr>columns = [''id'', ''name'', ''properties''], rows = [?rA, ?rB]\<rparr>\<close>
  have "case build_graph_from_csv (decoder_of [(''{}'', JDict [])]) ?D of
          Inl e \<Rightarrow> False | Inr G \<Rightarrow> True"
    by code_simp
  then obtain G where e: "build_graph_from_csv (decoder_of [(''{}'', JDict [])]) ?D = Inr G"
    by (auto split: sum.splits)
  have cells: "?rA ''id'' = ''/s/a''" "?rA ''name'' = ''A''" "?rA ''properties'' = ''uses /s/b''"
    "?rB ''id'' = ''/s/b''" "?rB ''name'' = ''B''" "?rB ''properties'' = ''''"
    by (simp_all add: mk_row_def)
  have hayB: "haystack (search_columns [''id'', ''name'', ''properties'']) ?rB = ''''"
    by (simp add: search_columns_def haystack_def cells)
  have sub: "str_in ''/s/b'' ''uses /s/b''" by code_simp
  have "?rA \<in> set (rows ?D)" and "?rB \<in> set (rows ?D)"
    and "?rA ''id'' \<noteq> ''''" and "?rB ''id'' \<noteq> ''''" and "?rA ''id'' \<noteq> ?rB ''id''"
    and "?rA ''name'' \<noteq> ''''" and "?rB ''name'' \<noteq> ''''" and "?rA ''name'' \<noteq> ?rB ''name''"
    by (simp_all add: cells)
  from reference_edge_direction [OF e this]
  have "(''A'', ''B'') \<in> set (edges G)" and "(''B'', ''A'') \<notin> set (edges G)"
    by (auto simp: cells hayB sub internet_node_name_def)
  with e show ?thesis by blast
qed

text \<open>
  A's \<^verbatim>\<open>properties\<close> contain the id of B, and a later row C declares the same id: the
  identity index resolves the id to C, and the graph has the edge from A to C, none from
  A to B.
\<close>

theorem reference_edge_counterexample:
  \<open>build_graph_from_csv (decoder_of [(''{}'', JDict [])])
     \<lparr>columns = [''id'', ''name'', ''properties''],
      rows = [mk_row [(''id'', ''/s/a''), (''name'', ''A''), (''properties'', ''uses /s/b'')],
              mk_row [(''id'', ''/s/b''), (''name'', ''B'')],
              mk_row [(''id'', ''/s/b''), (''name'', ''C'')]]\<rparr>
   = Inr \<lparr>nodes = [(''A'', [(''id'', AStr ''/s/a''), (''name'', AStr ''A''),
                             (''properties'', AStr ''uses /s/b'')]),
                     (''B'', [(''id'', AStr ''/s/b''), (''name'', AStr ''B'')]),
                     (''C'', [(''id'', AStr ''/s/b''), (''name'', AStr ''C'')])],
           edges = [(''A'', ''C'')]\<rparr>
   \<and> str_in ''/s/b'' ''uses /s/b''\<close>
  by (rule conjI; code_simp)

end
